theory Spec2Isabelle
  imports Main "HOL-Library.Char_ord" "HOL-Library.List_Lexorder"
begin

section \<open>Python values used by the notebook\<close>

text \<open>
  The notebook is Python. Reading a list or a string out of range raises \<open>IndexError\<close>,
  a negative index counts from the end, and a recursion that does not come back ends in
  \<open>RecursionError\<close> once the interpreter's recursion limit is used up. All three are
  values of the model.
\<close>

datatype error = IndexError | RecursionError

definition py_index :: "'a list \<Rightarrow> int \<Rightarrow> error + 'a" where
  "py_index xs i =
     (if 0 \<le> i \<and> i < int (length xs) then Inr (xs ! nat i)
      else if i < 0 \<and> - int (length xs) \<le> i then Inr (xs ! nat (int (length xs) + i))
      else Inl IndexError)"

text \<open>The slices \<open>xs[i:]\<close>, \<open>xs[:i]\<close> and \<open>xs[a:b]\<close>; a slice never raises.\<close>

definition py_clip :: "nat \<Rightarrow> int \<Rightarrow> nat" where
  "py_clip n i = (if i < 0 then nat (int n + i) else min n (nat i))"

definition py_from :: "'a list \<Rightarrow> int \<Rightarrow> 'a list" where
  "py_from xs i = drop (py_clip (length xs) i) xs"

definition py_upto :: "'a list \<Rightarrow> int \<Rightarrow> 'a list" where
  "py_upto xs i = take (py_clip (length xs) i) xs"

definition py_slice :: "'a list \<Rightarrow> int \<Rightarrow> int \<Rightarrow> 'a list" where
  "py_slice xs a b =
     take (py_clip (length xs) b - py_clip (length xs) a) (drop (py_clip (length xs) a) xs)"

section \<open>Genes, isoforms, exons and the transcriptome tables\<close>

text \<open>
  \<open>Exon(id, start, end)\<close>, \<open>Isoform(id, exons)\<close> and \<open>Gene(id, isoforms)\<close> come from
  \<open>shared.py\<close>; the notebook reads the fields \<open>start\<close>, \<open>end\<close>, \<open>exons\<close> and
  \<open>isoforms\<close> only.
\<close>

record exon =
  exon_id :: string
  exon_start :: int
  exon_end :: int

record isoform =
  isoform_id :: string
  exons :: "exon list"

record gene =
  gene_id :: string
  isoforms :: "isoform list"

text \<open>
  A row of an isoform's exon table is \<open>(total_len, ex.start, ex.end - ex.start)\<close>: the
  offset of the exon in the spliced sequence, its start in the genome and its length. A
  piece of an alignment is \<open>(read_start, reference_start, length)\<close>.
\<close>

type_synonym exon_row = "int \<times> int \<times> int"
type_synonym piece = "int \<times> int \<times> int"
type_synonym entry = "string \<times> exon_row list"

text \<open>
  The cell that fills \<open>known_transcriptome\<close>: for every isoform the exon sequences are
  concatenated and the table rows collected, \<open>total_len\<close> running along.
\<close>

fun splice :: "string \<Rightarrow> exon list \<Rightarrow> string \<Rightarrow> exon_row list \<Rightarrow> int \<Rightarrow> entry" where
  "splice genome [] isoform rows total_len = (isoform, rows)"
| "splice genome (ex # exs) isoform rows total_len =
     splice genome exs
       (isoform @ py_slice genome (exon_start ex) (exon_end ex))
       (rows @ [(total_len, exon_start ex, exon_end ex - exon_start ex)])
       (total_len + (exon_end ex - exon_start ex))"

definition transcriptome_entry :: "string \<Rightarrow> isoform \<Rightarrow> entry" where
  "transcriptome_entry genome isf = splice genome (exons isf) [] [] 0"

text \<open>
  The transcriptome is a dictionary from genes to dictionaries from isoforms to entries;
  Python iterates a dictionary in insertion order, so it is a list of lists here, in the
  order in which the loops of \<open>align_to_transcriptome\<close> meet the entries.
\<close>

type_synonym transcriptome = "(string \<times> (string \<times> entry) list) list"

definition build_transcriptome :: "string \<Rightarrow> gene list \<Rightarrow> transcriptome" where
  "build_transcriptome genome genes =
     map (\<lambda>g. (gene_id g, map (\<lambda>isf. (isoform_id isf, transcriptome_entry genome isf)) (isoforms g)))
       genes"

section \<open>Alignment to the transcriptome\<close>

text \<open>
  \<open>find_start_location\<close> is the inner binary search of \<open>find_alignment\<close>. It has no
  case for an empty range, so it may call itself without end; the first argument is the
  recursion depth that is left, and running out of it is \<open>RecursionError\<close>.
\<close>

fun find_start_location :: "nat \<Rightarrow> exon_row list \<Rightarrow> int \<Rightarrow> int \<Rightarrow> int \<Rightarrow> error + int" where
  "find_start_location 0 rows align_start lo hi = Inl RecursionError"
| "find_start_location (Suc depth) rows align_start lo hi =
     (let mid = (lo + hi) div 2 in
      case py_index rows mid of
        Inl e \<Rightarrow> Inl e
      | Inr (off, gstart, len) \<Rightarrow>
          if off \<le> align_start \<and> align_start < off + len then Inr mid
          else if off + len \<le> align_start
            then find_start_location depth rows align_start (mid + 1) hi
            else find_start_location depth rows align_start lo (mid - 1))"

text \<open>The \<open>while read_len > 0\<close> loop of \<open>find_alignment\<close>, one exon per round.\<close>

function extend_alignment :: "exon_row list \<Rightarrow> int \<Rightarrow> int \<Rightarrow> piece list \<Rightarrow> error + piece list" where
  "extend_alignment rows read_len idx algn =
     (if read_len > 0 then
        (case py_index rows (idx + 1) of
           Inl e \<Rightarrow> Inl e
         | Inr (off, gstart, len) \<Rightarrow>
             (case py_index algn (- 1) of
                Inl e \<Rightarrow> Inl e
              | Inr (rs, rf, ln) \<Rightarrow>
                  extend_alignment rows (read_len - len) (idx + 1)
                    (algn @ [(rs + ln, gstart, if read_len \<le> len then read_len else len)])))
      else Inr algn)"
  by pat_completeness auto
termination
  by (relation "measure (\<lambda>(rows, read_len, idx, algn). nat (int (length rows) - idx))")
     (auto simp: py_index_def split: if_splits)

declare extend_alignment.simps [simp del]

definition find_alignment :: "nat \<Rightarrow> int \<Rightarrow> int \<Rightarrow> exon_row list \<Rightarrow> error + piece list" where
  "find_alignment depth read_len align_start rows =
     (case find_start_location depth rows align_start 0 (int (length rows)) of
        Inl e \<Rightarrow> Inl e
      | Inr idx \<Rightarrow>
          (case py_index rows idx of
             Inl e \<Rightarrow> Inl e
           | Inr (off, gstart, len) \<Rightarrow>
               extend_alignment rows (read_len - (len - (align_start - off))) idx
                 [(0, gstart + (align_start - off),
                   if read_len + (align_start - off) \<le> len then read_len
                   else len - (align_start - off))]))"

text \<open>
  The inner \<open>while j < len(read)\<close> loop of \<open>align_to_isoform\<close> at offset \<open>i\<close>: it
  returns \<open>j\<close> and the mismatches counted when it stops. \<open>MAX_NUM_MISMATCHES\<close> is not
  defined in the notebook, it is the first argument.
\<close>

function count_mismatches :: "nat \<Rightarrow> string \<Rightarrow> string \<Rightarrow> nat \<Rightarrow> nat \<Rightarrow> nat \<Rightarrow> error + (nat \<times> nat)" where
  "count_mismatches max_mm read isoform i j mismatches =
     (if j < length read then
        (case py_index isoform (int (i + j)) of
           Inl e \<Rightarrow> Inl e
         | Inr c \<Rightarrow>
             (let mismatches' = (if c \<noteq> read ! j then mismatches + 1 else mismatches) in
              if mismatches' > max_mm then Inr (j, mismatches')
              else count_mismatches max_mm read isoform i (j + 1) mismatches'))
      else Inr (j, mismatches))"
  by pat_completeness auto
termination
  by (relation "measure (\<lambda>(max_mm, read, isoform, i, j, mismatches). length read - j)") auto

declare count_mismatches.simps [simp del]

text \<open>
  The \<open>for i in range(...)\<close> loop. \<open>match\<close> is \<open>None\<close> for the sentinel
  \<open>(-1, float("inf"))\<close> and \<open>Some (i, mismatches)\<close> otherwise.
\<close>

fun scan_offsets :: "nat \<Rightarrow> string \<Rightarrow> string \<Rightarrow> nat list \<Rightarrow> (nat \<times> nat) option \<Rightarrow> error + (nat \<times> nat) option" where
  "scan_offsets max_mm read isoform [] match = Inr match"
| "scan_offsets max_mm read isoform (i # is) match =
     (case count_mismatches max_mm read isoform i 0 0 of
        Inl e \<Rightarrow> Inl e
      | Inr (j, mismatches) \<Rightarrow>
          scan_offsets max_mm read isoform is
            (if j = length read \<and> (case match of None \<Rightarrow> True | Some (i', best) \<Rightarrow> mismatches < best)
             then Some (i, mismatches) else match))"

definition align_to_isoform :: "nat \<Rightarrow> nat \<Rightarrow> string \<Rightarrow> string \<Rightarrow> exon_row list \<Rightarrow> error + (piece list \<times> nat) option" where
  "align_to_isoform depth max_mm read isoform rows =
     (case scan_offsets max_mm read isoform
             [0..<nat (int (length isoform) - int (length read) + 1)] None of
        Inl e \<Rightarrow> Inl e
      | Inr None \<Rightarrow> Inr None
      | Inr (Some (i, mismatches)) \<Rightarrow>
          (case find_alignment depth (int (length read)) (int i) rows of
             Inl e \<Rightarrow> Inl e
           | Inr algn \<Rightarrow> Inr (Some (algn, mismatches))))"

text \<open>
  The two loops of \<open>align_to_transcriptome\<close>. A candidate replaces \<open>match\<close> when
  \<open>mismatches <= match[1]\<close>.
\<close>

fun align_isoforms :: "nat \<Rightarrow> nat \<Rightarrow> string \<Rightarrow> (string \<times> entry) list \<Rightarrow> (piece list \<times> nat) option \<Rightarrow> error + (piece list \<times> nat) option" where
  "align_isoforms depth max_mm read [] match = Inr match"
| "align_isoforms depth max_mm read ((key, (isoform, rows)) # rest) match =
     (case align_to_isoform depth max_mm read isoform rows of
        Inl e \<Rightarrow> Inl e
      | Inr None \<Rightarrow> align_isoforms depth max_mm read rest match
      | Inr (Some (alignment, mismatches)) \<Rightarrow>
          align_isoforms depth max_mm read rest
            (if (case match of None \<Rightarrow> True | Some (a, best) \<Rightarrow> mismatches \<le> best)
             then Some (alignment, mismatches) else match))"

fun align_genes :: "nat \<Rightarrow> nat \<Rightarrow> string \<Rightarrow> transcriptome \<Rightarrow> (piece list \<times> nat) option \<Rightarrow> error + (piece list \<times> nat) option" where
  "align_genes depth max_mm read [] match = Inr match"
| "align_genes depth max_mm read ((g, isos) # rest) match =
     (case align_isoforms depth max_mm read isos match of
        Inl e \<Rightarrow> Inl e
      | Inr match' \<Rightarrow> align_genes depth max_mm read rest match')"

definition align_to_transcriptome :: "nat \<Rightarrow> nat \<Rightarrow> string \<Rightarrow> transcriptome \<Rightarrow> error + (piece list \<times> nat) option" where
  "align_to_transcriptome depth max_mm read transcriptome =
     align_genes depth max_mm read transcriptome None"

section \<open>Seed search\<close>

text \<open>
  \<open>find_seeds\<close> (Algorithm.ipynb) and \<open>check_seeds\<close> (the second notebook) read the
  globals \<open>sa\<close>, \<open>M\<close>, \<open>occ\<close> and \<open>genome_sequence\<close> and call
  \<open>exact_suffix_matches\<close>, which is imported from \<open>project_nader\<close> and is not in the
  notebooks. Here the matcher \<open>esm\<close> (the call \<open>exact_suffix_matches(_, M, occ)\<close>), the
  suffix array and the genome length are arguments. The matcher returns a pair \<open>(lo, hi)\<close> of
  suffix array indices and the matched length, as the outputs kept in the notebooks show
  (\<open>((2366925, 2366926), 15)\<close>); \<open>max_so_far\<close> is the tuple
  \<open>(range, length, read, misses)\<close> and a seed the tuple
  \<open>(positions, length, misses, matched tail of the read)\<close>.
\<close>

type_synonym sa_range = "nat \<times> nat"
type_synonym matcher = "string \<Rightarrow> sa_range \<times> nat"
type_synonym max_so_far = "sa_range \<times> nat \<times> string \<times> int"
type_synonym seed = "nat list \<times> nat \<times> int \<times> string"

text \<open>
  \<open>BASES\<close> is printed by the notebook as \<open>['A', 'C', 'G', 'T']\<close>; \<open>TERMINATOR\<close> ends the
  indexed text.
\<close>

definition BASES :: "char list" where
  "BASES = [CHR ''A'', CHR ''C'', CHR ''G'', CHR ''T'']"

definition TERMINATOR :: char where
  "TERMINATOR = CHR ''$''"

definition MIN_INTRON_SIZE :: int where "MIN_INTRON_SIZE = 20"
definition MAX_INTRON_SIZE :: int where "MAX_INTRON_SIZE = 10000"

definition replace_base_at_index :: "string \<Rightarrow> int \<Rightarrow> char \<Rightarrow> string" where
  "replace_base_at_index read_sequence idx base =
     py_upto read_sequence idx @ [base] @ py_from read_sequence (idx + 1)"

fun msf_range :: "max_so_far \<Rightarrow> sa_range" where "msf_range (r, l, s, m) = r"
fun msf_length :: "max_so_far \<Rightarrow> nat" where "msf_length (r, l, s, m) = l"
fun msf_read :: "max_so_far \<Rightarrow> string" where "msf_read (r, l, s, m) = s"
fun msf_misses :: "max_so_far \<Rightarrow> int" where "msf_misses (r, l, s, m) = m"

fun seed_positions :: "seed \<Rightarrow> nat list" where "seed_positions (ps, l, m, q) = ps"
fun seed_length :: "seed \<Rightarrow> nat" where "seed_length (ps, l, m, q) = l"
fun seed_mismatches :: "seed \<Rightarrow> int" where "seed_mismatches (ps, l, m, q) = m"

text \<open>
  The \<open>for change in possible_changes\<close> loop of \<open>find_seeds\<close>. The candidate is
  \<open>replace_base_at_index(read_sequence, len_read - length - 1, change)\<close>: \<open>read_sequence\<close>
  is the reversed read as it came in and \<open>length\<close> the length of the first exact match,
  neither changes during the search, so \<open>idx\<close> is fixed. \<open>misses\<close> is read before the
  loop starts.
\<close>

fun try_changes :: "matcher \<Rightarrow> string \<Rightarrow> int \<Rightarrow> int \<Rightarrow> char list \<Rightarrow> max_so_far \<times> bool \<Rightarrow> max_so_far \<times> bool" where
  "try_changes esm read_sequence idx misses [] st = st"
| "try_changes esm read_sequence idx misses (change # rest) (max_so_far, updated) =
     (case esm (replace_base_at_index read_sequence idx change) of
        (new_range, new_length) \<Rightarrow>
          try_changes esm read_sequence idx misses rest
            (if new_length > msf_length max_so_far
             then ((new_range, new_length, replace_base_at_index read_sequence idx change,
                    misses + 1), True)
             else (max_so_far, updated)))"

text \<open>
  The \<open>while max_so_far[3] < mismatches and max_so_far[1] < len_read and updated\<close> loop.
  \<open>possible_changes\<close> leaves out the base of the current \<open>max_so_far[2]\<close> at
  \<open>len_read - max_so_far[1] - 1\<close>. Every round that updates adds one to the misses, which
  stay below \<open>mismatches\<close>: that is the termination argument.
\<close>

function seed_loop :: "matcher \<Rightarrow> string \<Rightarrow> nat \<Rightarrow> int \<Rightarrow> max_so_far \<Rightarrow> error + max_so_far" where
  "seed_loop esm read_sequence length0 mismatches max_so_far =
     (if msf_misses max_so_far < mismatches \<and> msf_length max_so_far < length read_sequence then
        (case py_index (msf_read max_so_far)
                (int (length read_sequence) - int (msf_length max_so_far) - 1) of
           Inl e \<Rightarrow> Inl e
         | Inr c \<Rightarrow>
             (case try_changes esm read_sequence
                     (int (length read_sequence) - int length0 - 1) (msf_misses max_so_far)
                     (filter (\<lambda>b. b \<noteq> c) BASES) (max_so_far, False) of
                (max_so_far', updated) \<Rightarrow>
                  if updated then seed_loop esm read_sequence length0 mismatches max_so_far'
                  else Inr max_so_far'))
      else Inr max_so_far)"
  by pat_completeness auto
termination
proof (relation "measure (\<lambda>(esm, read_sequence, length0, mismatches, max_so_far).
                   nat (mismatches - msf_misses max_so_far))")
  show "wf (measure (\<lambda>(esm, read_sequence, length0, mismatches, max_so_far).
                   nat (mismatches - msf_misses max_so_far)))" by simp
next
  fix esm :: matcher and read_sequence :: string and length0 :: nat and mismatches :: int
    and max_so_far :: max_so_far and c :: char and max_so_far' :: max_so_far and updated :: bool
  assume cond: "msf_misses max_so_far < mismatches \<and> msf_length max_so_far < length read_sequence"
    and "py_index (msf_read max_so_far)
           (int (length read_sequence) - int (msf_length max_so_far) - 1) = Inr c"
    and split: "(max_so_far', updated) =
      try_changes esm read_sequence (int (length read_sequence) - int length0 - 1)
        (msf_misses max_so_far) (filter (\<lambda>b. b \<noteq> c) BASES) (max_so_far, False)"
    and upd: "updated"
  have step: "try_changes esm rs idx misses cs st = st \<or>
      snd (try_changes esm rs idx misses cs st) \<and>
      msf_misses (fst (try_changes esm rs idx misses cs st)) = misses + 1"
    for rs idx misses cs st
  proof (induction cs arbitrary: st)
    case Nil
    then show ?case by simp
  next
    case (Cons change cs)
    obtain m u where st: "st = (m, u)" by (cases st) auto
    obtain new_range new_length where
      new: "esm (replace_base_at_index rs idx change) = (new_range, new_length)"
      by (cases "esm (replace_base_at_index rs idx change)") auto
    show ?case
    proof (cases "new_length > msf_length m")
      case True
      with Cons.IH [of "((new_range, new_length, replace_base_at_index rs idx change, misses + 1), True)"]
        st new show ?thesis by auto
    next
      case False
      with Cons.IH [of "(m, u)"] st new show ?thesis by auto
    qed
  qed
  from step [of read_sequence "int (length read_sequence) - int length0 - 1"
      "msf_misses max_so_far" "filter (\<lambda>b. b \<noteq> c) BASES" "(max_so_far, False)"] split upd
  have "msf_misses max_so_far' = msf_misses max_so_far + 1"
    by (metis fst_conv snd_conv)
  with cond show "((esm, read_sequence, length0, mismatches, max_so_far'),
          (esm, read_sequence, length0, mismatches, max_so_far))
         \<in> measure (\<lambda>(esm, read_sequence, length0, mismatches, max_so_far).
                   nat (mismatches - msf_misses max_so_far))"
    by simp
qed

declare seed_loop.simps [simp del]

text \<open>
  \<open>find_seeds(read_sequence, mismatches, k)\<close>. The seed count \<open>k\<close> is a natural number,
  \<open>not k\<close> is \<open>k = 0\<close>. The positions are \<open>[sa[i] for i in max_so_far[0]]\<close>:
  \<open>max_so_far[0]\<close> is the pair \<open>(lo, hi)\<close>, so the comprehension reads \<open>sa[lo]\<close> and
  \<open>sa[hi]\<close>, and \<open>sa[hi]\<close> raises when \<open>hi = len(sa)\<close>. The recursive call reverses
  the remaining prefix again, as the function does with every argument.
\<close>

fun find_seeds :: "matcher \<Rightarrow> nat list \<Rightarrow> string \<Rightarrow> int \<Rightarrow> nat \<Rightarrow> error + seed list" where
  "find_seeds esm sa read_sequence mismatches 0 = Inr []"
| "find_seeds esm sa read_sequence mismatches (Suc k) =
     (case esm (rev read_sequence) of
        (interval, length0) \<Rightarrow>
          (case seed_loop esm (rev read_sequence) length0 mismatches
                  (interval, length0, rev read_sequence, 0) of
             Inl e \<Rightarrow> Inl e
           | Inr max_so_far \<Rightarrow>
               (case py_index sa (int (fst (msf_range max_so_far))) of
                  Inl e \<Rightarrow> Inl e
                | Inr first \<Rightarrow>
                    (case py_index sa (int (snd (msf_range max_so_far))) of
                       Inl e \<Rightarrow> Inl e
                     | Inr second \<Rightarrow>
                         (if length read_sequence = msf_length max_so_far
                          then Inr [([first, second], msf_length max_so_far, msf_misses max_so_far,
                                     py_from (msf_read max_so_far)
                                       (int (length read_sequence) - int (msf_length max_so_far)))]
                          else
                            (case find_seeds esm sa
                                    (py_upto (msf_read max_so_far)
                                       (int (length (msf_read max_so_far)) - int (msf_length max_so_far)))
                                    (mismatches - msf_misses max_so_far) k of
                               Inl e \<Rightarrow> Inl e
                             | Inr rest \<Rightarrow>
                                 Inr (([first, second], msf_length max_so_far, msf_misses max_so_far,
                                       py_from (msf_read max_so_far)
                                         (int (length read_sequence) - int (msf_length max_so_far)))
                                      # rest)))))))"

text \<open>
  \<open>check_seeds(_range, length, high_bound=None)\<close>: \<open>range(_range[0], _range[1])\<close> is
  walked. \<open>not high_bound\<close> holds for \<open>None\<close> and for \<open>0\<close>; \<open>and\<close> binds
  tighter than \<open>or\<close>.
\<close>

fun check_seeds_loop :: "nat list \<Rightarrow> nat \<Rightarrow> int \<Rightarrow> int option \<Rightarrow> nat list \<Rightarrow> int list \<Rightarrow> error + int list" where
  "check_seeds_loop sa genome_len len high_bound [] valid_seeds = Inr valid_seeds"
| "check_seeds_loop sa genome_len len high_bound (i # is) valid_seeds =
     (case py_index sa (int i) of
        Inl e \<Rightarrow> Inl e
      | Inr p \<Rightarrow>
          (let location = int p + len in
           check_seeds_loop sa genome_len len high_bound is
             (if (case high_bound of None \<Rightarrow> True
                  | Some hb \<Rightarrow> hb = 0 \<or>
                      (location < hb \<and> MIN_INTRON_SIZE \<le> hb - location \<and>
                       hb - location \<le> MAX_INTRON_SIZE))
              then valid_seeds @ [int genome_len + 1 - location] else valid_seeds)))"

definition check_seeds :: "nat list \<Rightarrow> nat \<Rightarrow> sa_range \<Rightarrow> int \<Rightarrow> int option \<Rightarrow> error + int list" where
  "check_seeds sa genome_len interval len high_bound =
     check_seeds_loop sa genome_len len high_bound [fst interval..<snd interval] []"

section \<open>The index and the exact matcher\<close>

text \<open>
  Modelled from the spec: \<open>get_suffix_array\<close>, \<open>get_bwt\<close>, \<open>get_F\<close>, \<open>get_M\<close>,
  \<open>get_occ\<close> and \<open>exact_suffix_matches\<close> are imported from \<open>project_nader\<close> and are
  not in the notebooks. The suffix array is the sorted order of all suffixes of the
  terminated text; \<open>BWT[i] = text[SA[i] - 1]\<close>, wrapping to the last symbol when
  \<open>SA[i] = 0\<close>; \<open>M[c]\<close> counts the symbols of the text smaller than \<open>c\<close>;
  \<open>occ[c][k]\<close> counts \<open>c\<close> in \<open>BWT[0:k]\<close>. They are used for the examples only: the
  statements about \<open>find_seeds\<close> hold for every matcher.
\<close>

definition get_suffix_array :: "string \<Rightarrow> nat list" where
  "get_suffix_array s = sort_key (\<lambda>i. drop i s) [0..<length s]"

definition get_bwt :: "string \<Rightarrow> nat list \<Rightarrow> string" where
  "get_bwt s sa = map (\<lambda>i. if i = 0 then last s else s ! (i - 1)) sa"

definition get_F :: "string \<Rightarrow> string" where
  "get_F L = sort L"

definition get_M :: "string \<Rightarrow> char \<Rightarrow> nat" where
  "get_M F c = length (filter (\<lambda>x. x < c) F)"

definition get_occ :: "string \<Rightarrow> char \<Rightarrow> nat list" where
  "get_occ L c = map (\<lambda>k. length (filter (\<lambda>x. x = c) (take k L))) [0..<Suc (length L)]"

text \<open>
  Modelled from the spec: backward search scans the query from its last symbol to its
  first, with \<open>lo' = M[c] + occ[c][lo]\<close> and \<open>hi' = M[c] + occ[c][hi]\<close>, stops when
  \<open>lo' >= hi'\<close> and returns the last interval that was not empty together with the number
  of symbols consumed. It starts from the whole suffix array.
\<close>

fun backward_search :: "(char \<Rightarrow> nat) \<Rightarrow> (char \<Rightarrow> nat list) \<Rightarrow> string \<Rightarrow> sa_range \<Rightarrow> nat \<Rightarrow> sa_range \<times> nat" where
  "backward_search M occ [] (lo, hi) matched = ((lo, hi), matched)"
| "backward_search M occ (c # cs) (lo, hi) matched =
     (if M c + occ c ! lo \<ge> M c + occ c ! hi then ((lo, hi), matched)
      else backward_search M occ cs (M c + occ c ! lo, M c + occ c ! hi) (matched + 1))"

definition exact_suffix_matches :: "string \<Rightarrow> (char \<Rightarrow> nat) \<Rightarrow> (char \<Rightarrow> nat list) \<Rightarrow> sa_range \<times> nat" where
  "exact_suffix_matches p M occ =
     backward_search M occ (rev p) (0, length (occ TERMINATOR) - 1) 0"

section \<open>Notions used in the statements\<close>

text \<open>
  The fields of a piece and of a row of an exon table.
\<close>

fun read_start :: "piece \<Rightarrow> int" where "read_start (rs, rf, ln) = rs"
fun reference_start :: "piece \<Rightarrow> int" where "reference_start (rs, rf, ln) = rf"
fun piece_length :: "piece \<Rightarrow> int" where "piece_length (rs, rf, ln) = ln"

text \<open>
  \<open>contiguous_from s algn\<close>: the first piece starts at \<open>s\<close> in the read and every piece
  starts where the one before it ends. \<open>ordered_pieces\<close> is the invariant of the spec:
  \<open>read_start[i+1] >= read_start[i] + length[i]\<close> for consecutive pieces.
\<close>

fun contiguous_from :: "int \<Rightarrow> piece list \<Rightarrow> bool" where
  "contiguous_from s [] = True"
| "contiguous_from s (p # ps) = (read_start p = s \<and> contiguous_from (s + piece_length p) ps)"

fun row_length :: "exon_row \<Rightarrow> int" where "row_length (off, gstart, len) = len"

text \<open>
  The entries of a transcriptome in the order of the two loops, and the loops as one loop
  over them.
\<close>

definition entries_of :: "transcriptome \<Rightarrow> entry list" where
  "entries_of t = concat (map (\<lambda>(g, isos). map snd isos) t)"

fun ordered_pieces :: "piece list \<Rightarrow> bool" where
  "ordered_pieces [] = True"
| "ordered_pieces [p] = True"
| "ordered_pieces (p # q # ps) =
     (read_start p + piece_length p \<le> read_start q \<and> ordered_pieces (q # ps))"

fun align_entries :: "nat \<Rightarrow> nat \<Rightarrow> string \<Rightarrow> entry list \<Rightarrow> (piece list \<times> nat) option \<Rightarrow> error + (piece list \<times> nat) option" where
  "align_entries depth max_mm read [] match = Inr match"
| "align_entries depth max_mm read ((isoform, rows) # rest) match =
     (case align_to_isoform depth max_mm read isoform rows of
        Inl e \<Rightarrow> Inl e
      | Inr None \<Rightarrow> align_entries depth max_mm read rest match
      | Inr (Some (alignment, mismatches)) \<Rightarrow>
          align_entries depth max_mm read rest
            (if (case match of None \<Rightarrow> True | Some (a, best) \<Rightarrow> mismatches \<le> best)
             then Some (alignment, mismatches) else match))"

text \<open>
  A result of \<open>align_to_isoform\<close> with at least, or with more than, \<open>mm\<close> mismatches;
  the sentinel counts as infinitely many.
\<close>

definition at_least :: "nat \<Rightarrow> (piece list \<times> nat) option \<Rightarrow> bool" where
  "at_least mm res = (case res of None \<Rightarrow> True | Some (a, m') \<Rightarrow> mm \<le> m')"

definition more_than :: "nat \<Rightarrow> (piece list \<times> nat) option \<Rightarrow> bool" where
  "more_than mm res = (case res of None \<Rightarrow> True | Some (a, m') \<Rightarrow> mm < m')"

text \<open>
  \<open>mismatches_at read isoform i j\<close> counts the positions \<open>k < j\<close> with
  \<open>isoform[i+k] != read[k]\<close>; the read matches at offset \<open>i\<close> within the ceiling when it
  fits there and differs in at most \<open>max_mm\<close> positions. \<open>scan_result\<close> says what the scan
  over a list of offsets leaves in \<open>match\<close>.
\<close>

definition mismatches_at :: "string \<Rightarrow> string \<Rightarrow> nat \<Rightarrow> nat \<Rightarrow> nat" where
  "mismatches_at read isoform i j = length (filter (\<lambda>k. isoform ! (i + k) \<noteq> read ! k) [0..<j])"

definition matches_within :: "nat \<Rightarrow> string \<Rightarrow> string \<Rightarrow> nat \<Rightarrow> bool" where
  "matches_within max_mm read isoform i =
     (i + length read \<le> length isoform \<and> mismatches_at read isoform i (length read) \<le> max_mm)"

definition scan_result :: "nat \<Rightarrow> string \<Rightarrow> string \<Rightarrow> nat list \<Rightarrow> (nat \<times> nat) option \<Rightarrow> (nat \<times> nat) option \<Rightarrow> bool" where
  "scan_result max_mm read isoform offs match res =
     (case res of
        None \<Rightarrow> match = None \<and> (\<forall>i\<in>set offs. \<not> matches_within max_mm read isoform i)
      | Some (i, mm) \<Rightarrow>
          (res = match \<or>
             i \<in> set offs \<and> matches_within max_mm read isoform i \<and>
             mm = mismatches_at read isoform i (length read)) \<and>
          (\<forall>i'\<in>set offs. matches_within max_mm read isoform i' \<longrightarrow>
             mm \<le> mismatches_at read isoform i' (length read)) \<and>
          (\<forall>i0 b0. match = Some (i0, b0) \<longrightarrow> mm \<le> b0))"

fun row_offset :: "exon_row \<Rightarrow> int" where "row_offset (off, gstart, len) = off"
fun row_start :: "exon_row \<Rightarrow> int" where "row_start (off, gstart, len) = gstart"

text \<open>
  A well-formed exon table, as the transcriptome cell builds it from exons with
  \<open>end > start\<close>: the offsets are the running sums of the lengths and every length is
  positive. \<open>spliced_length\<close> is the length of the spliced sequence the table describes.
\<close>

fun wf_rows :: "int \<Rightarrow> exon_row list \<Rightarrow> bool" where
  "wf_rows t [] = True"
| "wf_rows t (r # rows) = (row_offset r = t \<and> 0 < row_length r \<and> wf_rows (t + row_length r) rows)"

definition spliced_length :: "exon_row list \<Rightarrow> int" where
  "spliced_length rows = sum_list (map row_length rows)"

text \<open>
  \<open>follows_exons rows k algn\<close>: the pieces lie in the exons \<open>k\<close>, \<open>k + 1\<close>, ... of the
  table, one piece per exon; every piece but the last ends where its exon ends and the next
  piece starts where the next exon starts. \<open>aligned_at rows a k algn\<close> adds that offset
  \<open>a\<close> of the spliced sequence lies in exon \<open>k\<close> and that the first piece starts at its
  place in the genome.
\<close>

fun follows_exons :: "exon_row list \<Rightarrow> nat \<Rightarrow> piece list \<Rightarrow> bool" where
  "follows_exons rows k [] = True"
| "follows_exons rows k [p] =
     (k < length rows \<and> row_start (rows ! k) \<le> reference_start p \<and> 0 \<le> piece_length p \<and>
      reference_start p + piece_length p \<le> row_start (rows ! k) + row_length (rows ! k))"
| "follows_exons rows k (p # q # ps) =
     (k < length rows \<and> row_start (rows ! k) \<le> reference_start p \<and> 0 \<le> piece_length p \<and>
      reference_start p + piece_length p = row_start (rows ! k) + row_length (rows ! k) \<and>
      reference_start q = row_start (rows ! Suc k) \<and>
      follows_exons rows (Suc k) (q # ps))"

definition aligned_at :: "exon_row list \<Rightarrow> int \<Rightarrow> nat \<Rightarrow> piece list \<Rightarrow> bool" where
  "aligned_at rows a k algn =
     (k < length rows \<and> algn \<noteq> [] \<and>
      row_offset (rows ! k) \<le> a \<and> a < row_offset (rows ! k) + row_length (rows ! k) \<and>
      reference_start (hd algn) = row_start (rows ! k) + (a - row_offset (rows ! k)) \<and>
      follows_exons rows k algn)"

text \<open>
  An entry is well formed when its table is and the spliced sequence is not longer than
  the table says (a slice of the genome is shorter than \<open>end - start\<close> when the exon leaves
  the genome). \<open>occurs_in read isoform\<close>: the read stands verbatim at some offset.
\<close>

definition wf_entry :: "entry \<Rightarrow> bool" where
  "wf_entry e = (case e of (isoform, rows) \<Rightarrow>
     wf_rows 0 rows \<and> int (length isoform) \<le> spliced_length rows)"

definition occurs_in :: "string \<Rightarrow> string \<Rightarrow> bool" where
  "occurs_in read isoform =
     (\<exists>i\<in>set [0..<Suc (length isoform)]. take (length read) (drop i isoform) = read)"

text \<open>
  The positions \<open>check_seeds\<close> keeps.
\<close>

definition kept :: "int option \<Rightarrow> int \<Rightarrow> bool" where
  "kept high_bound location =
     (case high_bound of None \<Rightarrow> True
      | Some hb \<Rightarrow> hb = 0 \<or>
          (MIN_INTRON_SIZE \<le> hb - location \<and> hb - location \<le> MAX_INTRON_SIZE))"

section \<open>Examples\<close>

text \<open>
  A genome of 24 bases with four exons, two genes and three isoforms; and the string
  \<open>ACGTACGTACGT$\<close> of the spec with its index.
\<close>

definition example_genome :: string where
  "example_genome = ''ACGTTTGGGCATACGTAACGTGCA''"

definition example_genes :: "gene list" where
  "example_genes =
     [\<lparr>gene_id = ''g1'', isoforms =
         [\<lparr>isoform_id = ''i1'', exons =
             [\<lparr>exon_id = ''e1'', exon_start = 0, exon_end = 4\<rparr>,
              \<lparr>exon_id = ''e2'', exon_start = 6, exon_end = 10\<rparr>]\<rparr>,
          \<lparr>isoform_id = ''i2'', exons =
             [\<lparr>exon_id = ''e3'', exon_start = 12, exon_end = 16\<rparr>,
              \<lparr>exon_id = ''e2'', exon_start = 6, exon_end = 10\<rparr>]\<rparr>]\<rparr>,
      \<lparr>gene_id = ''g2'', isoforms =
         [\<lparr>isoform_id = ''i3'', exons =
             [\<lparr>exon_id = ''e4'', exon_start = 18, exon_end = 24\<rparr>]\<rparr>]\<rparr>]"

definition example_transcriptome :: transcriptome where
  "example_transcriptome = build_transcriptome example_genome example_genes"

definition example_text :: string where
  "example_text = ''ACGTACGTACGT$''"

definition example_sa :: "nat list" where
  "example_sa = get_suffix_array example_text"

definition example_esm :: matcher where
  "example_esm p = exact_suffix_matches p
     (get_M (get_F (get_bwt example_text example_sa)))
     (get_occ (get_bwt example_text example_sa))"

section \<open>Properties\<close>

subsection \<open>The examples, evaluated\<close>

lemma example_sa_eq: "example_sa = [12, 8, 4, 0, 9, 5, 1, 10, 6, 2, 11, 7, 3]"
  by code_simp

lemma example_entries:
  "entries_of example_transcriptome =
     [(''ACGTGGGC'', [(0, 0, 4), (4, 6, 4)]),
      (''ACGTGGGC'', [(0, 12, 4), (4, 6, 4)]),
      (''CGTGCA'', [(0, 18, 6)])]"
  by code_simp

lemma example_first: "align_to_isoform 10 6 ''GTGG'' ''ACGTGGGC'' [(0, 0, 4), (4, 6, 4)] =
    Inr (Some ([(0, 2, 2), (2, 6, 2)], 0))"
  by code_simp

lemma example_second: "align_to_isoform 10 6 ''GTGG'' ''ACGTGGGC'' [(0, 12, 4), (4, 6, 4)] =
    Inr (Some ([(0, 14, 2), (2, 6, 2)], 0))"
  by code_simp

lemma example_third: "align_to_isoform 10 6 ''GTGG'' ''CGTGCA'' [(0, 18, 6)] =
    Inr (Some ([(0, 19, 4)], 1))"
  by code_simp

lemma example_aligned:
  "align_to_transcriptome 10 6 ''GTGG'' example_transcriptome =
     Inr (Some ([(0, 14, 2), (2, 6, 2)], 0))"
  by code_simp

lemma example_found:
  "find_alignment 10 4 2 [(0, 0, 4), (4, 6, 4)] = Inr [(0, 2, 2), (2, 6, 2)]"
  by code_simp

lemma example_seeds:
  "find_seeds example_esm example_sa ''TGCATGAAGG'' 6 3 =
     Inr [([4, 9], 8, 1, ''ACGTACGT''), ([9, 10], 2, 1, ''CG'')]"
  by code_simp

lemma no_match_1: "\<not> matches_within 0 ''GGTGGG'' ''ACGTGGGC'' i"
proof (cases "i \<le> 2")
  case True
  then have "i = 0 \<or> i = 1 \<or> i = 2" by arith
  then show ?thesis by (elim disjE; hypsubst) code_simp+
next
  case False
  then show ?thesis by (simp add: matches_within_def numeral_2_eq_2)
qed

lemma no_match_2: "\<not> matches_within 0 ''GGTGGG'' ''CGTGCA'' i"
proof (cases "i = 0")
  case True
  then show ?thesis by hypsubst code_simp
next
  case False
  then show ?thesis by (simp add: matches_within_def)
qed

subsection \<open>Python indexing\<close>

lemma py_index_nat: "k < length xs \<Longrightarrow> py_index xs (int k) = Inr (xs ! k)"
  by (simp add: py_index_def)

lemma py_index_last: "xs \<noteq> [] \<Longrightarrow> py_index xs (- 1) = Inr (last xs)"
  by (cases xs rule: rev_cases) (auto simp: py_index_def nth_append)

subsection \<open>The pieces of an alignment\<close>

lemma contiguous_from_snoc:
  "contiguous_from s (ps @ [p]) =
     (contiguous_from s ps \<and> read_start p = s + sum_list (map piece_length ps))"
  by (induction ps arbitrary: s) (auto simp: algebra_simps)

lemma contiguous_from_last:
  "contiguous_from s ps \<Longrightarrow> ps \<noteq> [] \<Longrightarrow>
     read_start (last ps) + piece_length (last ps) = s + sum_list (map piece_length ps)"
  by (induction ps arbitrary: s) (auto simp: algebra_simps)

lemma contiguous_from_nth:
  "contiguous_from s ps \<Longrightarrow> Suc i < length ps \<Longrightarrow>
     read_start (ps ! Suc i) = read_start (ps ! i) + piece_length (ps ! i)"
proof (induction ps arbitrary: s i)
  case Nil
  then show ?case by simp
next
  case (Cons p ps)
  show ?case
  proof (cases i)
    case 0
    with Cons.prems show ?thesis by (cases ps) auto
  next
    case (Suc k)
    with Cons.prems Cons.IH [of "s + piece_length p" k] show ?thesis by simp
  qed
qed

lemma extend_alignment_nonempty:
  "extend_alignment rows read_len idx algn = Inr out \<Longrightarrow> algn \<noteq> [] \<Longrightarrow> out \<noteq> []"
proof (induction rows read_len idx algn rule: extend_alignment.induct)
  case (1 rows read_len idx algn)
  show ?case
  proof (cases "read_len > 0")
    case False
    with "1.prems" show ?thesis by (simp add: extend_alignment.simps [of rows read_len idx algn])
  next
    case True
    with "1.prems" "1.IH" show ?thesis
      by (auto simp: extend_alignment.simps [of rows read_len idx algn] split: sum.splits prod.splits)
  qed
qed

lemma extend_alignment_hd:
  "extend_alignment rows read_len idx algn = Inr out \<Longrightarrow> algn \<noteq> [] \<Longrightarrow> hd out = hd algn"
proof (induction rows read_len idx algn rule: extend_alignment.induct)
  case (1 rows read_len idx algn)
  show ?case
  proof (cases "read_len > 0")
    case False
    with "1.prems" show ?thesis by (simp add: extend_alignment.simps [of rows read_len idx algn])
  next
    case True
    with "1.prems" "1.IH" show ?thesis
      by (auto simp: extend_alignment.simps [of rows read_len idx algn] split: sum.splits prod.splits)
  qed
qed

lemma extend_alignment_contiguous:
  "extend_alignment rows read_len idx algn = Inr out \<Longrightarrow> algn \<noteq> [] \<Longrightarrow>
     contiguous_from s algn \<Longrightarrow> contiguous_from s out"
proof (induction rows read_len idx algn rule: extend_alignment.induct)
  case (1 rows read_len idx algn)
  show ?case
  proof (cases "read_len > 0")
    case False
    with "1.prems" show ?thesis by (simp add: extend_alignment.simps [of rows read_len idx algn])
  next
    case True
    from "1.prems"(2) have last: "py_index algn (- 1) = Inr (last algn)"
      by (rule py_index_last)
    from True "1.prems"(1) obtain off gstart len where
      row: "py_index rows (idx + 1) = Inr (off, gstart, len)"
      by (auto simp: extend_alignment.simps [of rows read_len idx algn] split: sum.splits)
    obtain rs rf ln where l: "last algn = (rs, rf, ln)"
      by (cases "last algn") auto
    let ?p = "(rs + ln, gstart, if read_len \<le> len then read_len else len)"
    from True "1.prems"(1) row last l
    have out: "extend_alignment rows (read_len - len) (idx + 1) (algn @ [?p]) = Inr out"
      by (simp add: extend_alignment.simps [of rows read_len idx algn])
    from contiguous_from_last [OF "1.prems"(3) "1.prems"(2)] l
    have "rs + ln = s + sum_list (map piece_length algn)" by simp
    with "1.prems"(3) have "contiguous_from s (algn @ [?p])"
      by (simp add: contiguous_from_snoc)
    with "1.IH" [OF True row refl refl last l [symmetric] refl out] show ?thesis by simp
  qed
qed

text \<open>
  C9. Every alignment that \<open>find_alignment\<close> returns is contiguous in the read: it has a
  first piece, that piece has \<open>read_start\<close> 0, and each further piece starts exactly where
  the piece before it ends, \<open>read_start[i+1] = read_start[i] + length[i]\<close>. This holds for
  every exon table and every offset for which the function returns at all.
\<close>

theorem find_alignment_contiguous:
  assumes "find_alignment depth read_len align_start rows = Inr algn"
  shows "algn \<noteq> [] \<and> read_start (hd algn) = 0 \<and>
         (\<forall>i. Suc i < length algn \<longrightarrow>
            read_start (algn ! Suc i) = read_start (algn ! i) + piece_length (algn ! i))"
proof -
  from assms obtain idx off gstart len where
    ext: "extend_alignment rows (read_len - (len - (align_start - off))) idx
            [(0, gstart + (align_start - off),
              if read_len + (align_start - off) \<le> len then read_len
              else len - (align_start - off))] = Inr algn"
    by (auto simp: find_alignment_def split: sum.splits)
  have ne: "algn \<noteq> []"
    using extend_alignment_nonempty [OF ext] by simp
  have hd: "read_start (hd algn) = 0"
    using extend_alignment_hd [OF ext] by simp
  have "contiguous_from 0 algn"
    using extend_alignment_contiguous [OF ext, of 0] by simp
  with ne hd show ?thesis
    by (auto dest: contiguous_from_nth)
qed

theorem find_alignment_contiguous_witness:
  "find_alignment 10 4 2 [(0, 0, 4), (4, 6, 4)] = Inr [(0, 2, 2), (2, 6, 2)] \<and>
   read_start (hd [(0, 2, 2), (2, 6, 2)]) = 0 \<and>
   read_start ([(0, 2, 2), (2, 6, 2)] ! Suc 0) =
     read_start ([(0, 2, 2), (2, 6, 2)] ! 0) + piece_length ([(0, 2, 2), (2, 6, 2)] ! 0)"
proof -
  note c = find_alignment_contiguous [OF example_found]
  from c have a: "read_start (hd [(0, 2, 2), (2, 6, 2)]) = 0" by (elim conjE)
  from c have "\<forall>i. Suc i < length [(0::int, 2::int, 2::int), (2, 6, 2)] \<longrightarrow>
      read_start ([(0, 2, 2), (2, 6, 2)] ! Suc i) =
      read_start ([(0, 2, 2), (2, 6, 2)] ! i) + piece_length ([(0, 2, 2), (2, 6, 2)] ! i)"
    by (elim conjE)
  then have b: "read_start ([(0, 2, 2), (2, 6, 2)] ! Suc 0) =
     read_start ([(0, 2, 2), (2, 6, 2)] ! 0) + piece_length ([(0, 2, 2), (2, 6, 2)] ! 0)"
    by (elim allE [of _ 0] impE) simp_all
  show ?thesis by (intro conjI example_found a b)
qed

lemma py_index_in_set: "py_index xs i = Inr x \<Longrightarrow> x \<in> set xs"
  by (auto simp: py_index_def split: if_splits)

lemma contiguous_ordered: "contiguous_from s ps \<Longrightarrow> ordered_pieces ps"
  by (induction ps arbitrary: s rule: ordered_pieces.induct) auto

lemma contiguous_sorted:
  "contiguous_from s ps \<Longrightarrow> \<forall>p\<in>set (butlast ps). 0 \<le> piece_length p \<Longrightarrow>
     sorted (map read_start ps)"
proof (induction ps arbitrary: s rule: ordered_pieces.induct)
  case 1
  then show ?case by simp
next
  case (2 p)
  then show ?case by simp
next
  case (3 p q ps)
  from "3.prems" have c: "contiguous_from (s + piece_length p) (q # ps)"
    and nn: "\<forall>x\<in>set (butlast (q # ps)). 0 \<le> piece_length x"
    and p: "0 \<le> piece_length p" and rs: "read_start p = s" by auto
  from "3.IH" [OF c nn] have srt: "sorted (map read_start (q # ps))" .
  from c have "read_start q = s + piece_length p" by simp
  with p rs have "read_start p \<le> read_start q" by simp
  with srt show ?case by (auto simp: order_trans)
qed

lemma find_start_location_hit:
  "find_start_location depth rows a lo hi = Inr idx \<Longrightarrow>
     \<exists>off gstart len. py_index rows idx = Inr (off, gstart, len) \<and> off \<le> a \<and> a < off + len"
proof (induction depth arbitrary: lo hi)
  case 0
  then show ?case by simp
next
  case (Suc depth)
  then show ?case
    by (auto simp: Let_def split: sum.splits if_splits)
qed

lemma extend_alignment_lengths:
  "extend_alignment rows read_len idx algn = Inr out \<Longrightarrow> algn \<noteq> [] \<Longrightarrow>
     \<forall>r\<in>set rows. 0 \<le> row_length r \<Longrightarrow>
     \<forall>p\<in>set (butlast algn). 0 \<le> piece_length p \<Longrightarrow>
     (0 < read_len \<longrightarrow> 0 \<le> piece_length (last algn)) \<Longrightarrow>
     \<forall>p\<in>set (butlast out). 0 \<le> piece_length p"
proof (induction rows read_len idx algn rule: extend_alignment.induct)
  case (1 rows read_len idx algn)
  show ?case
  proof (cases "read_len > 0")
    case False
    with "1.prems" show ?thesis by (simp add: extend_alignment.simps [of rows read_len idx algn])
  next
    case True
    from "1.prems"(2) have last: "py_index algn (- 1) = Inr (last algn)"
      by (rule py_index_last)
    from True "1.prems"(1) obtain off gstart len where
      row: "py_index rows (idx + 1) = Inr (off, gstart, len)"
      by (auto simp: extend_alignment.simps [of rows read_len idx algn] split: sum.splits)
    obtain rs rf ln where l: "last algn = (rs, rf, ln)"
      by (cases "last algn") auto
    let ?p = "(rs + ln, gstart, if read_len \<le> len then read_len else len)"
    from True "1.prems"(1) row last l
    have out: "extend_alignment rows (read_len - len) (idx + 1) (algn @ [?p]) = Inr out"
      by (simp add: extend_alignment.simps [of rows read_len idx algn])
    from py_index_in_set [OF row] "1.prems"(3) have len: "0 \<le> len" by fastforce
    have all: "\<forall>p\<in>set algn. 0 \<le> piece_length p"
    proof
      fix p assume "p \<in> set algn"
      with "1.prems"(2) have "p \<in> set (butlast algn) \<or> p = last algn"
        by (metis append_butlast_last_id in_set_conv_decomp rotate1.simps(2) set_ConsD set_rotate1)
      with "1.prems"(4,5) True show "0 \<le> piece_length p" by auto
    qed
    have "0 < read_len - len \<longrightarrow> 0 \<le> piece_length (last (algn @ [?p]))"
      using len by auto
    with "1.IH" [OF True row refl refl last l [symmetric] refl out _ "1.prems"(3)] all
    show ?thesis by simp
  qed
qed

lemma find_alignment_sorted:
  assumes "find_alignment depth read_len align_start rows = Inr algn"
    and "\<forall>r\<in>set rows. 0 \<le> row_length r"
  shows "sorted (map read_start algn)"
proof -
  from assms(1) obtain idx off gstart len where
    idx: "find_start_location depth rows align_start 0 (int (length rows)) = Inr idx"
    and row: "py_index rows idx = Inr (off, gstart, len)"
    and ext: "extend_alignment rows (read_len - (len - (align_start - off))) idx
            [(0, gstart + (align_start - off),
              if read_len + (align_start - off) \<le> len then read_len
              else len - (align_start - off))] = Inr algn"
    by (auto simp: find_alignment_def split: sum.splits)
  from find_start_location_hit [OF idx] row have "off \<le> align_start" "align_start < off + len"
    by auto
  then have "\<forall>p\<in>set (butlast algn). 0 \<le> piece_length p"
    using extend_alignment_lengths [OF ext _ assms(2)] by auto
  moreover have "contiguous_from 0 algn"
    using extend_alignment_contiguous [OF ext, of 0] by simp
  ultimately show ?thesis by (rule contiguous_sorted [rotated])
qed

lemma find_alignment_ordered:
  assumes "find_alignment depth read_len align_start rows = Inr algn"
  shows "ordered_pieces algn"
proof -
  from assms obtain idx off gstart len where
    ext: "extend_alignment rows (read_len - (len - (align_start - off))) idx
            [(0, gstart + (align_start - off),
              if read_len + (align_start - off) \<le> len then read_len
              else len - (align_start - off))] = Inr algn"
    by (auto simp: find_alignment_def split: sum.splits)
  have "contiguous_from 0 algn"
    using extend_alignment_contiguous [OF ext, of 0] by simp
  then show ?thesis by (rule contiguous_ordered)
qed

lemma align_to_isoform_from:
  "align_to_isoform depth max_mm read isoform rows = Inr (Some (algn, mm)) \<Longrightarrow>
     \<exists>i. find_alignment depth (int (length read)) (int i) rows = Inr algn"
  by (auto simp: align_to_isoform_def split: sum.splits option.splits)

text \<open>
  C10. A read strictly longer than the isoform's spliced sequence gets the sentinel
  \<open>(-1, inf)\<close> from \<open>align_to_isoform\<close>, whatever the exon table and the mismatch ceiling
  are: \<open>range(len(isoform) - len(read) + 1)\<close> is empty, no character of the isoform is
  read and \<open>find_alignment\<close> is not called, so nothing raises.
\<close>

theorem align_to_isoform_longer_read:
  "length isoform < length read \<Longrightarrow>
     align_to_isoform depth max_mm read isoform rows = Inr None"
  by (simp add: align_to_isoform_def)

theorem align_to_isoform_longer_read_witness:
  "length ''ACGTGGGC'' < length ''ACGTGGGCA'' \<and>
   align_to_isoform 10 6 ''ACGTGGGCA'' ''ACGTGGGC'' [(0, 0, 4), (4, 6, 4)] = Inr None"
  using align_to_isoform_longer_read [of "''ACGTGGGC''" "''ACGTGGGCA''" 10 6 "[(0, 0, 4), (4, 6, 4)]"]
  by simp

subsection \<open>The loops over genes and isoforms\<close>

lemma align_isoforms_entries:
  "align_isoforms depth max_mm read isos match = align_entries depth max_mm read (map snd isos) match"
  by (induction depth max_mm read isos match rule: align_isoforms.induct)
     (auto split: sum.splits option.splits)

lemma align_entries_append:
  "align_entries depth max_mm read (xs @ ys) match =
     (case align_entries depth max_mm read xs match of
        Inl e \<Rightarrow> Inl e
      | Inr match' \<Rightarrow> align_entries depth max_mm read ys match')"
  by (induction depth max_mm read xs match rule: align_entries.induct)
     (auto split: sum.splits option.splits)

lemma align_genes_entries:
  "align_genes depth max_mm read t match = align_entries depth max_mm read (entries_of t) match"
proof (induction t arbitrary: match)
  case Nil
  then show ?case by (simp add: entries_of_def)
next
  case (Cons x t)
  obtain g isos where x: "x = (g, isos)" by (cases x) auto
  have e: "entries_of (x # t) = map snd isos @ entries_of t"
    by (simp add: entries_of_def x)
  show ?case
    by (simp add: x e [unfolded x] align_entries_append align_isoforms_entries Cons.IH
        split: sum.splits)
qed

lemma align_entries_before:
  "\<forall>(isoform, rows)\<in>set es. \<exists>res. align_to_isoform depth max_mm read isoform rows = Inr res \<and> at_least mm res \<Longrightarrow>
   at_least mm match \<Longrightarrow>
   \<exists>match'. align_entries depth max_mm read es match = Inr match' \<and> at_least mm match'"
proof (induction es arbitrary: match)
  case Nil
  then show ?case by simp
next
  case (Cons x es)
  obtain isoform rows where x: "x = (isoform, rows)" by (cases x) auto
  from Cons.prems(1) x obtain res where
    res: "align_to_isoform depth max_mm read isoform rows = Inr res" "at_least mm res" by auto
  from Cons.prems(1) have rest: "\<forall>(isoform, rows)\<in>set es. \<exists>res. align_to_isoform depth max_mm read isoform rows = Inr res \<and> at_least mm res"
    by simp
  show ?case
  proof (cases res)
    case None
    with res x Cons.IH [OF rest Cons.prems(2)] show ?thesis by simp
  next
    case (Some am)
    obtain a m' where am: "am = (a, m')" by (cases am) auto
    let ?m = "if (case match of None \<Rightarrow> True | Some (a, best) \<Rightarrow> m' \<le> best)
             then Some (a, m') else match"
    from res Some am Cons.prems(2) have "at_least mm ?m" by (simp add: at_least_def)
    from Cons.IH [OF rest this] res Some am x show ?thesis by simp
  qed
qed

lemma align_entries_after:
  "\<forall>(isoform, rows)\<in>set es. \<exists>res. align_to_isoform depth max_mm read isoform rows = Inr res \<and> more_than mm res \<Longrightarrow>
   align_entries depth max_mm read es (Some (algn, mm)) = Inr (Some (algn, mm))"
proof (induction es)
  case Nil
  then show ?case by simp
next
  case (Cons x es)
  obtain isoform rows where x: "x = (isoform, rows)" by (cases x) auto
  from Cons.prems(1) x obtain res where
    res: "align_to_isoform depth max_mm read isoform rows = Inr res" "more_than mm res" by auto
  from Cons.prems(1) have rest: "\<forall>(isoform, rows)\<in>set es. \<exists>res. align_to_isoform depth max_mm read isoform rows = Inr res \<and> more_than mm res"
    by simp
  from Cons.IH [OF rest] res x show ?case
    by (auto simp: more_than_def split: option.splits)
qed

text \<open>
  C1, as the code has it. \<open>align_to_transcriptome\<close> replaces its best match when
  \<open>mismatches <= match[1]\<close>, so among the candidates that tie on the fewest mismatches
  the one met last wins: a candidate with \<open>mm\<close> mismatches is returned when no isoform
  before it in the order of the loops has fewer than \<open>mm\<close> and every isoform after it has
  more than \<open>mm\<close> or no match. The claim as written (the first candidate met is kept and a
  later one with an equal count does not replace it) fails: in the counterexample two isoforms
  of one gene contain the read with 0 mismatches and the alignment returned is the one of the
  second.
\<close>

theorem align_to_transcriptome_last_tie:
  assumes "entries_of t = before @ (isoform, rows) # after"
    and "align_to_isoform depth max_mm read isoform rows = Inr (Some (algn, mm))"
    and "\<forall>(s, r)\<in>set before. \<exists>res. align_to_isoform depth max_mm read s r = Inr res \<and> at_least mm res"
    and "\<forall>(s, r)\<in>set after. \<exists>res. align_to_isoform depth max_mm read s r = Inr res \<and> more_than mm res"
  shows "align_to_transcriptome depth max_mm read t = Inr (Some (algn, mm))"
proof -
  from align_entries_before [OF assms(3), of None] obtain m0 where
    m0: "align_entries depth max_mm read before None = Inr m0" "at_least mm m0"
    by (auto simp: at_least_def)
  from m0(2) have "(if (case m0 of None \<Rightarrow> True | Some (a, best) \<Rightarrow> mm \<le> best)
             then Some (algn, mm) else m0) = Some (algn, mm)"
    by (auto simp: at_least_def split: option.splits)
  with m0(1) assms(2) align_entries_after [OF assms(4), of algn]
  show ?thesis
    by (simp add: align_to_transcriptome_def align_genes_entries assms(1) align_entries_append)
qed

theorem align_to_transcriptome_last_tie_witness:
  "align_to_transcriptome 10 6 ''GTGG'' example_transcriptome =
     Inr (Some ([(0, 14, 2), (2, 6, 2)], 0))"
proof (rule align_to_transcriptome_last_tie)
  show "entries_of example_transcriptome =
      [(''ACGTGGGC'', [(0, 0, 4), (4, 6, 4)])] @
      (''ACGTGGGC'', [(0, 12, 4), (4, 6, 4)]) # [(''CGTGCA'', [(0, 18, 6)])]"
    by (simp add: example_entries)
  show "align_to_isoform 10 6 ''GTGG'' ''ACGTGGGC'' [(0, 12, 4), (4, 6, 4)] =
      Inr (Some ([(0, 14, 2), (2, 6, 2)], 0))"
    by (rule example_second)
  show "\<forall>(s, r)\<in>set [(''ACGTGGGC'', [(0, 0, 4), (4, 6, 4)])].
      \<exists>res. align_to_isoform 10 6 ''GTGG'' s r = Inr res \<and> at_least 0 res"
    by (simp add: example_first at_least_def)
  show "\<forall>(s, r)\<in>set [(''CGTGCA'', [(0, 18, 6)])].
      \<exists>res. align_to_isoform 10 6 ''GTGG'' s r = Inr res \<and> more_than 0 res"
    by (simp add: example_third more_than_def)
qed

theorem first_tie_counterexample:
  "align_to_isoform 10 6 ''GTGG'' ''ACGTGGGC'' [(0, 0, 4), (4, 6, 4)] =
     Inr (Some ([(0, 2, 2), (2, 6, 2)], 0)) \<and>
   align_to_isoform 10 6 ''GTGG'' ''ACGTGGGC'' [(0, 12, 4), (4, 6, 4)] =
     Inr (Some ([(0, 14, 2), (2, 6, 2)], 0)) \<and>
   align_to_transcriptome 10 6 ''GTGG''
     [(''g1'', [(''i1'', ''ACGTGGGC'', [(0, 0, 4), (4, 6, 4)]),
                (''i2'', ''ACGTGGGC'', [(0, 12, 4), (4, 6, 4)])])] =
     Inr (Some ([(0, 14, 2), (2, 6, 2)], 0)) \<and>
   align_to_transcriptome 10 6 ''GTGG''
     [(''g1'', [(''i1'', ''ACGTGGGC'', [(0, 0, 4), (4, 6, 4)]),
                (''i2'', ''ACGTGGGC'', [(0, 12, 4), (4, 6, 4)])])] \<noteq>
     Inr (Some ([(0, 2, 2), (2, 6, 2)], 0))"
  by code_simp

subsection \<open>Scanning the offsets of an isoform\<close>

lemma mismatches_at_0: "mismatches_at read isoform i 0 = 0"
  by (simp add: mismatches_at_def)

lemma mismatches_at_Suc:
  "mismatches_at read isoform i (Suc j) =
     (if isoform ! (i + j) \<noteq> read ! j then mismatches_at read isoform i j + 1
      else mismatches_at read isoform i j)"
  by (simp add: mismatches_at_def)

lemma mismatches_at_mono:
  "j \<le> j' \<Longrightarrow> mismatches_at read isoform i j \<le> mismatches_at read isoform i j'"
  by (induction j' rule: dec_induct) (auto simp: mismatches_at_Suc)

lemma count_mismatches_run:
  "i + length read \<le> length isoform \<Longrightarrow> j \<le> length read \<Longrightarrow>
   acc = mismatches_at read isoform i j \<Longrightarrow> acc \<le> max_mm \<Longrightarrow>
   \<exists>j' mm'. count_mismatches max_mm read isoform i j acc = Inr (j', mm') \<and>
     (j' = length read \<longleftrightarrow> mismatches_at read isoform i (length read) \<le> max_mm) \<and>
     (j' = length read \<longrightarrow> mm' = mismatches_at read isoform i (length read))"
proof (induction max_mm read isoform i j acc rule: count_mismatches.induct)
  case (1 max_mm read isoform i j acc)
  show ?case
  proof (cases "j < length read")
    case False
    then have "count_mismatches max_mm read isoform i j acc = Inr (j, acc)"
      by (simp add: count_mismatches.simps [of max_mm read isoform i j acc])
    with False "1.prems" show ?thesis by simp
  next
    case True
    with "1.prems"(1) have ix: "py_index isoform (int (i + j)) = Inr (isoform ! (i + j))"
      by (intro py_index_nat) simp
    let ?acc' = "if isoform ! (i + j) \<noteq> read ! j then acc + 1 else acc"
    have acc': "?acc' = mismatches_at read isoform i (Suc j)"
      using "1.prems"(3) by (simp add: mismatches_at_Suc)
    show ?thesis
    proof (cases "?acc' > max_mm")
      case over: True
      from True have "mismatches_at read isoform i (Suc j) \<le> mismatches_at read isoform i (length read)"
        by (intro mismatches_at_mono) simp
      with over acc' have "\<not> mismatches_at read isoform i (length read) \<le> max_mm" by simp
      moreover from over True ix
      have "count_mismatches max_mm read isoform i j acc = Inr (j, ?acc')"
        by (simp add: count_mismatches.simps [of max_mm read isoform i j acc] Let_def)
      ultimately show ?thesis using True by auto
    next
      case False
      from True False ix
      have step: "count_mismatches max_mm read isoform i j acc =
                  count_mismatches max_mm read isoform i (j + 1) ?acc'"
        by (simp add: count_mismatches.simps [of max_mm read isoform i j acc] Let_def)
      from False have le: "?acc' \<le> max_mm" by simp
      from True have j1: "j + 1 \<le> length read" by simp
      from "1.IH" [OF True ix refl False "1.prems"(1) j1 _ le] acc' step
      show ?thesis by simp
    qed
  qed
qed

lemma scan_offsets_result:
  "\<forall>i\<in>set offs. i + length read \<le> length isoform \<Longrightarrow>
   \<exists>res. scan_offsets max_mm read isoform offs match = Inr res \<and>
         scan_result max_mm read isoform offs match res"
proof (induction offs arbitrary: match)
  case Nil
  then show ?case by (auto simp: scan_result_def split: option.splits)
next
  case (Cons i offs)
  from Cons.prems have i: "i + length read \<le> length isoform"
    and rest: "\<forall>i\<in>set offs. i + length read \<le> length isoform" by auto
  from count_mismatches_run [OF i, of 0 0 max_mm] obtain j mm where
    run: "count_mismatches max_mm read isoform i 0 0 = Inr (j, mm)"
    and hit: "j = length read \<longleftrightarrow> mismatches_at read isoform i (length read) \<le> max_mm"
    and cnt: "j = length read \<longrightarrow> mm = mismatches_at read isoform i (length read)"
    by (auto simp: mismatches_at_0)
  let ?m = "if j = length read \<and> (case match of None \<Rightarrow> True | Some (i', best) \<Rightarrow> mm < best)
             then Some (i, mm) else match"
  from Cons.IH [OF rest, of ?m] obtain res where
    res: "scan_offsets max_mm read isoform offs ?m = Inr res"
    and sr: "scan_result max_mm read isoform offs ?m res" by blast
  from run res have "scan_offsets max_mm read isoform (i # offs) match = Inr res" by simp
  moreover have "scan_result max_mm read isoform (i # offs) match res"
    using sr hit cnt i
    by (cases res; cases match)
       (auto simp: scan_result_def matches_within_def split: if_splits)
  ultimately show ?case by blast
qed

lemma in_offsets:
  "i \<in> set [0..<nat (int (length isoform) - int (length read) + 1)] \<longleftrightarrow>
     i + length read \<le> length isoform"
  by auto

lemma align_to_isoform_none:
  assumes "\<forall>i. \<not> matches_within max_mm read isoform i"
  shows "align_to_isoform depth max_mm read isoform rows = Inr None"
proof -
  let ?offs = "[0..<nat (int (length isoform) - int (length read) + 1)]"
  have "\<forall>i\<in>set ?offs. i + length read \<le> length isoform" by auto
  from scan_offsets_result [OF this, of max_mm None] obtain res where
    res: "scan_offsets max_mm read isoform ?offs None = Inr res"
    and sr: "scan_result max_mm read isoform ?offs None res" by blast
  from sr assms have "res = None"
    by (cases res) (auto simp: scan_result_def)
  with res show ?thesis by (simp add: align_to_isoform_def)
qed

lemma align_to_isoform_some:
  assumes "align_to_isoform depth max_mm read isoform rows = Inr (Some (algn, mm))"
  shows "\<exists>i. matches_within max_mm read isoform i \<and>
             mm = mismatches_at read isoform i (length read) \<and>
             find_alignment depth (int (length read)) (int i) rows = Inr algn \<and>
             (\<forall>i'. matches_within max_mm read isoform i' \<longrightarrow>
                mm \<le> mismatches_at read isoform i' (length read))"
proof -
  let ?offs = "[0..<nat (int (length isoform) - int (length read) + 1)]"
  have "\<forall>i\<in>set ?offs. i + length read \<le> length isoform" by auto
  from scan_offsets_result [OF this, of max_mm None] obtain res where
    res: "scan_offsets max_mm read isoform ?offs None = Inr res"
    and sr: "scan_result max_mm read isoform ?offs None res" by blast
  from assms res obtain i where i: "res = Some (i, mm)"
    and fa: "find_alignment depth (int (length read)) (int i) rows = Inr algn"
    by (auto simp: align_to_isoform_def split: option.splits sum.splits)
  from sr i have "matches_within max_mm read isoform i"
    "mm = mismatches_at read isoform i (length read)"
    "\<forall>i'\<in>set ?offs. matches_within max_mm read isoform i' \<longrightarrow>
       mm \<le> mismatches_at read isoform i' (length read)"
    by (auto simp: scan_result_def)
  moreover have "\<And>i'. matches_within max_mm read isoform i' \<Longrightarrow> i' \<in> set ?offs"
    unfolding in_offsets by (simp add: matches_within_def)
  ultimately show ?thesis using fa by blast
qed

lemma align_to_isoform_total:
  assumes "\<And>i. matches_within max_mm read isoform i \<Longrightarrow>
             \<exists>algn. find_alignment depth (int (length read)) (int i) rows = Inr algn"
  shows "\<exists>res. align_to_isoform depth max_mm read isoform rows = Inr res"
proof -
  let ?offs = "[0..<nat (int (length isoform) - int (length read) + 1)]"
  have "\<forall>i\<in>set ?offs. i + length read \<le> length isoform" by auto
  from scan_offsets_result [OF this, of max_mm None] obtain res where
    res: "scan_offsets max_mm read isoform ?offs None = Inr res"
    and sr: "scan_result max_mm read isoform ?offs None res" by blast
  show ?thesis
  proof (cases res)
    case None
    with res show ?thesis by (simp add: align_to_isoform_def)
  next
    case (Some im)
    obtain i mm where im: "im = (i, mm)" by (cases im) auto
    from sr Some im have "matches_within max_mm read isoform i" by (auto simp: scan_result_def)
    from assms [OF this] res Some im show ?thesis
      by (auto simp: align_to_isoform_def)
  qed
qed

lemma align_to_isoform_hit:
  assumes "matches_within max_mm read isoform i"
    and "align_to_isoform depth max_mm read isoform rows = Inr res"
  shows "\<exists>algn mm. res = Some (algn, mm) \<and> mm \<le> mismatches_at read isoform i (length read)"
proof -
  let ?offs = "[0..<nat (int (length isoform) - int (length read) + 1)]"
  have "\<forall>i\<in>set ?offs. i + length read \<le> length isoform" by auto
  from scan_offsets_result [OF this, of max_mm None] obtain r where
    r: "scan_offsets max_mm read isoform ?offs None = Inr r"
    and sr: "scan_result max_mm read isoform ?offs None r" by blast
  from assms(1) have mem: "i \<in> set ?offs" unfolding in_offsets by (simp add: matches_within_def)
  with sr assms(1) obtain i' mm where r': "r = Some (i', mm)"
    and "mm \<le> mismatches_at read isoform i (length read)"
    by (cases r) (auto simp: scan_result_def)
  with r assms(2) show ?thesis
    by (auto simp: align_to_isoform_def split: sum.splits)
qed

lemma align_entries_result:
  "align_entries depth max_mm read es match = Inr res \<Longrightarrow>
     res = match \<or>
     (\<exists>isoform rows. (isoform, rows) \<in> set es \<and>
        align_to_isoform depth max_mm read isoform rows = Inr res)"
proof (induction depth max_mm read es match rule: align_entries.induct)
  case (1 depth max_mm read match)
  then show ?case by simp
next
  case (2 depth max_mm read isoform rows rest match)
  show ?case
  proof (cases "align_to_isoform depth max_mm read isoform rows")
    case (Inl e)
    with "2.prems" show ?thesis by simp
  next
    case (Inr r)
    show ?thesis
    proof (cases r)
      case None
      with Inr "2.prems" "2.IH"(1) show ?thesis by auto
    next
      case (Some am)
      obtain a m where am: "am = (a, m)" by (cases am) auto
      from Inr Some am "2.prems" "2.IH"(2) [OF Inr Some am [symmetric]]
      show ?thesis by (auto split: if_splits)
    qed
  qed
qed

lemma align_entries_none:
  "\<forall>(isoform, rows)\<in>set es. align_to_isoform depth max_mm read isoform rows = Inr None \<Longrightarrow>
     align_entries depth max_mm read es match = Inr match"
  by (induction depth max_mm read es match rule: align_entries.induct) auto

lemma align_to_transcriptome_from:
  assumes "align_to_transcriptome depth max_mm read t = Inr (Some (algn, mm))"
  shows "\<exists>isoform rows i. (isoform, rows) \<in> set (entries_of t) \<and>
           find_alignment depth (int (length read)) (int i) rows = Inr algn"
proof -
  from assms have "align_entries depth max_mm read (entries_of t) None = Inr (Some (algn, mm))"
    by (simp add: align_to_transcriptome_def align_genes_entries)
  from align_entries_result [OF this] obtain isoform rows where
    "(isoform, rows) \<in> set (entries_of t)"
    "align_to_isoform depth max_mm read isoform rows = Inr (Some (algn, mm))" by auto
  with align_to_isoform_from show ?thesis by blast
qed

text \<open>
  C5. The alignments of \<open>find_alignment\<close>, and so those of \<open>align_to_transcriptome\<close>
  (the only alignments the notebooks produce: \<open>Aligner.align\<close> and \<open>align_to_genome\<close>
  are empty), satisfy \<open>read_start[i+1] >= read_start[i] + length[i]\<close> for consecutive
  pieces, whatever the exon table is. They are sorted by \<open>read_start\<close> when no exon of the
  table has a negative length, which the data model asks of every exon (\<open>end > start\<close>).
\<close>

theorem alignment_piece_ordering:
  "(find_alignment depth read_len align_start rows = Inr algn \<longrightarrow>
      ordered_pieces algn \<and>
      ((\<forall>r\<in>set rows. 0 \<le> row_length r) \<longrightarrow> sorted (map read_start algn))) \<and>
   (align_to_transcriptome depth max_mm read t = Inr (Some (algn', mm)) \<longrightarrow>
      ordered_pieces algn' \<and>
      ((\<forall>(isoform, rows)\<in>set (entries_of t). \<forall>r\<in>set rows. 0 \<le> row_length r) \<longrightarrow>
         sorted (map read_start algn')))"
proof (intro conjI impI)
  assume "find_alignment depth read_len align_start rows = Inr algn"
  then show "ordered_pieces algn" by (rule find_alignment_ordered)
next
  assume "find_alignment depth read_len align_start rows = Inr algn"
    and "\<forall>r\<in>set rows. 0 \<le> row_length r"
  then show "sorted (map read_start algn)" by (rule find_alignment_sorted)
next
  assume "align_to_transcriptome depth max_mm read t = Inr (Some (algn', mm))"
  from align_to_transcriptome_from [OF this] show "ordered_pieces algn'"
    by (auto intro: find_alignment_ordered)
next
  assume "align_to_transcriptome depth max_mm read t = Inr (Some (algn', mm))"
    and nn: "\<forall>(isoform, rows)\<in>set (entries_of t). \<forall>r\<in>set rows. 0 \<le> row_length r"
  from align_to_transcriptome_from [OF this(1)] obtain isoform rows i where
    "(isoform, rows) \<in> set (entries_of t)"
    "find_alignment depth (int (length read)) (int i) rows = Inr algn'" by blast
  with nn show "sorted (map read_start algn')"
    by (auto intro: find_alignment_sorted)
qed

theorem alignment_piece_ordering_witness:
  "find_alignment 10 4 2 [(0, 0, 4), (4, 6, 4)] = Inr [(0, 2, 2), (2, 6, 2)] \<and>
   ordered_pieces [(0, 2, 2), (2, 6, 2)] \<and>
   sorted (map read_start [(0, 2, 2), (2, 6, 2)]) \<and>
   align_to_transcriptome 10 6 ''GTGG'' example_transcriptome =
     Inr (Some ([(0, 14, 2), (2, 6, 2)], 0)) \<and>
   ordered_pieces [(0, 14, 2), (2, 6, 2)] \<and>
   sorted (map read_start [(0, 14, 2), (2, 6, 2)])"
proof -
  note c = alignment_piece_ordering [of 10 4 2 "[(0, 0, 4), (4, 6, 4)]" "[(0, 2, 2), (2, 6, 2)]"
      6 "''GTGG''" example_transcriptome "[(0, 14, 2), (2, 6, 2)]" 0]
  have rows: "\<forall>r\<in>set [(0::int, 0::int, 4::int), (4, 6, 4)]. 0 \<le> row_length r" by simp
  have tabs: "\<forall>(isoform, rows)\<in>set (entries_of example_transcriptome).
      \<forall>r\<in>set rows. 0 \<le> row_length r"
    by (simp add: example_entries)
  note d = c [THEN conjunct1, THEN mp, OF example_found]
  note a = d [THEN conjunct1]
  note b = d [THEN conjunct2, THEN mp, OF rows]
  note d' = c [THEN conjunct2, THEN mp, OF example_aligned]
  note a' = d' [THEN conjunct1]
  note b' = d' [THEN conjunct2, THEN mp, OF tabs]
  show ?thesis by (intro conjI example_found example_aligned a b a' b')
qed

text \<open>
  Without the condition on the table the pieces need not be sorted: an exon with
  \<open>end < start\<close> has a negative length, and the piece that crosses it sends
  \<open>read_start\<close> backwards.
\<close>

lemma find_alignment_negative_exon:
  "find_alignment 10 7 2 [(0, 0, 4), (4, 6, - 1), (3, 9, 20)] =
     Inr [(0, 2, 2), (2, 6, - 1), (1, 9, 6)]"
  by code_simp

text \<open>
  C8. If the read matches no isoform of the transcriptome at any offset within
  \<open>MAX_NUM_MISMATCHES\<close> mismatches, \<open>align_to_transcriptome\<close> returns the sentinel
  \<open>(-1, inf)\<close> and raises nothing, whatever the exon tables are; and whenever it returns an
  alignment, the mismatch count that comes with it is at most the ceiling.
\<close>

theorem align_to_transcriptome_no_match:
  "((\<forall>(isoform, rows)\<in>set (entries_of t). \<forall>i. \<not> matches_within max_mm read isoform i) \<longrightarrow>
      align_to_transcriptome depth max_mm read t = Inr None) \<and>
   (align_to_transcriptome depth max_mm read t = Inr (Some (algn, mm)) \<longrightarrow> mm \<le> max_mm)"
proof (intro conjI impI)
  assume "\<forall>(isoform, rows)\<in>set (entries_of t). \<forall>i. \<not> matches_within max_mm read isoform i"
  then have "\<forall>(isoform, rows)\<in>set (entries_of t).
               align_to_isoform depth max_mm read isoform rows = Inr None"
    by (auto intro: align_to_isoform_none)
  then show "align_to_transcriptome depth max_mm read t = Inr None"
    by (simp add: align_to_transcriptome_def align_genes_entries align_entries_none)
next
  assume "align_to_transcriptome depth max_mm read t = Inr (Some (algn, mm))"
  then have "align_entries depth max_mm read (entries_of t) None = Inr (Some (algn, mm))"
    by (simp add: align_to_transcriptome_def align_genes_entries)
  from align_entries_result [OF this] obtain isoform rows where
    "align_to_isoform depth max_mm read isoform rows = Inr (Some (algn, mm))" by auto
  from align_to_isoform_some [OF this] show "mm \<le> max_mm"
    by (auto simp: matches_within_def)
qed

theorem align_to_transcriptome_no_match_witness:
  "align_to_transcriptome 10 0 ''GGTGGG'' example_transcriptome = Inr None \<and>
   align_to_transcriptome 10 6 ''GTGG'' example_transcriptome =
     Inr (Some ([(0, 14, 2), (2, 6, 2)], 0)) \<and>
   (0::nat) \<le> 6"
proof -
  have none: "\<forall>(isoform, rows)\<in>set (entries_of example_transcriptome).
      \<forall>i. \<not> matches_within 0 ''GGTGGG'' isoform i"
    by (simp add: example_entries no_match_1 no_match_2)
  from align_to_transcriptome_no_match [THEN conjunct1, THEN mp, OF none]
  have a: "align_to_transcriptome 10 0 ''GGTGGG'' example_transcriptome = Inr None" .
  from align_to_transcriptome_no_match [THEN conjunct2, THEN mp, OF example_aligned]
  have b: "(0::nat) \<le> 6" .
  show ?thesis by (intro conjI a example_aligned b)
qed

subsection \<open>Well-formed exon tables and the binary search\<close>

lemma spliced_length_simps [simp]:
  "spliced_length [] = 0"
  "spliced_length (r # rows) = row_length r + spliced_length rows"
  "spliced_length (rows @ rows') = spliced_length rows + spliced_length rows'"
  by (simp_all add: spliced_length_def)

lemma wf_rows_append:
  "wf_rows t (rows @ rows') = (wf_rows t rows \<and> wf_rows (t + spliced_length rows) rows')"
  by (induction rows arbitrary: t) (auto simp: algebra_simps)

lemma wf_rows_nth:
  "wf_rows t rows \<Longrightarrow> k < length rows \<Longrightarrow>
     row_offset (rows ! k) = t + spliced_length (take k rows) \<and> 0 < row_length (rows ! k)"
proof (induction rows arbitrary: t k)
  case Nil
  then show ?case by simp
next
  case (Cons r rows)
  then show ?case by (cases k) (auto simp: algebra_simps)
qed

lemma spliced_length_take_Suc:
  "k < length rows \<Longrightarrow>
     spliced_length (take (Suc k) rows) = spliced_length (take k rows) + row_length (rows ! k)"
  by (simp add: take_Suc_conv_app_nth)

lemma spliced_length_take_mono:
  "k \<le> m \<Longrightarrow> wf_rows t rows \<Longrightarrow> m \<le> length rows \<Longrightarrow>
     spliced_length (take k rows) \<le> spliced_length (take m rows)"
proof (induction m rule: dec_induct)
  case base
  then show ?case by simp
next
  case (step m)
  from step.prems have m: "m < length rows" by simp
  from wf_rows_nth [OF step.prems(1) m] have "0 < row_length (rows ! m)" by simp
  with step m show ?case by (simp add: spliced_length_take_Suc)
qed

lemma wf_rows_end_le_offset:
  assumes "wf_rows t rows" "k < m" "m < length rows"
  shows "row_offset (rows ! k) + row_length (rows ! k) \<le> row_offset (rows ! m)"
proof -
  from assms have k: "k < length rows" by simp
  from spliced_length_take_mono [OF _ assms(1), of "Suc k" m] assms
  have "spliced_length (take (Suc k) rows) \<le> spliced_length (take m rows)" by simp
  with wf_rows_nth [OF assms(1) k] wf_rows_nth [OF assms(1) assms(3)] k
  show ?thesis by (simp add: spliced_length_take_Suc)
qed

lemma wf_rows_last_end:
  assumes "wf_rows t rows" "Suc k = length rows"
  shows "row_offset (rows ! k) + row_length (rows ! k) = t + spliced_length rows"
proof -
  from assms(2) have k: "k < length rows" by simp
  from assms(2) have "take (Suc k) rows = rows" by simp
  with spliced_length_take_Suc [OF k] wf_rows_nth [OF assms(1) k] show ?thesis by simp
qed

lemma wf_rows_covering:
  "wf_rows t rows \<Longrightarrow> t \<le> a \<Longrightarrow> a < t + spliced_length rows \<Longrightarrow>
     \<exists>k<length rows. row_offset (rows ! k) \<le> a \<and> a < row_offset (rows ! k) + row_length (rows ! k)"
proof (induction rows arbitrary: t)
  case Nil
  then show ?case by simp
next
  case (Cons r rows)
  show ?case
  proof (cases "a < t + row_length r")
    case True
    with Cons.prems have "row_offset ((r # rows) ! 0) \<le> a \<and>
        a < row_offset ((r # rows) ! 0) + row_length ((r # rows) ! 0)" by simp
    then show ?thesis by blast
  next
    case False
    with Cons.prems Cons.IH [of "t + row_length r"] obtain k where
      "k < length rows" "row_offset (rows ! k) \<le> a"
      "a < row_offset (rows ! k) + row_length (rows ! k)" by (auto simp: algebra_simps)
    then have "Suc k < length (r # rows) \<and> row_offset ((r # rows) ! Suc k) \<le> a \<and>
        a < row_offset ((r # rows) ! Suc k) + row_length ((r # rows) ! Suc k)" by simp
    then show ?thesis by blast
  qed
qed

lemma wf_rows_positive: "wf_rows t rows \<Longrightarrow> rows \<noteq> [] \<Longrightarrow> 0 < spliced_length rows"
proof (induction rows arbitrary: t)
  case Nil
  then show ?case by simp
next
  case (Cons r rows)
  show ?case
  proof (cases rows)
    case Nil
    with Cons.prems show ?thesis by simp
  next
    case (Cons r' rows')
    with Cons.prems Cons.IH [of "t + row_length r"] show ?thesis by simp
  qed
qed

lemma find_start_location_wf:
  assumes wf: "wf_rows t rows" and tgt: "tgt < length rows"
    and hit: "row_offset (rows ! tgt) \<le> a" "a < row_offset (rows ! tgt) + row_length (rows ! tgt)"
  shows "0 \<le> lo \<Longrightarrow> lo \<le> int tgt \<Longrightarrow> int tgt \<le> hi \<Longrightarrow> hi \<le> int (length rows) \<Longrightarrow>
         hi - lo + 1 < 2 ^ depth \<Longrightarrow>
         find_start_location depth rows a lo hi = Inr (int tgt)"
proof (induction depth arbitrary: lo hi)
  case 0
  then show ?case by simp
next
  case (Suc depth)
  define mid where "mid = (lo + hi) div 2"
  define P :: int where "P = 2 ^ depth"
  from Suc.prems(5) have P: "hi - lo + 1 < 2 * P" by (simp add: P_def)
  have div: "2 * mid \<le> lo + hi" "lo + hi < 2 * mid + 2"
    unfolding mid_def by linarith+
  with Suc.prems tgt have mid: "lo \<le> mid" "mid \<le> hi" "mid < int (length rows)" "0 \<le> mid"
    by linarith+
  then have ix: "py_index rows mid = Inr (rows ! nat mid)"
    by (simp add: py_index_def)
  obtain off gstart len where row: "rows ! nat mid = (off, gstart, len)"
    by (cases "rows ! nat mid") auto
  from mid have m: "nat mid < length rows" by simp
  consider (eq) "nat mid = tgt" | (less) "nat mid < tgt" | (greater) "tgt < nat mid"
    by linarith
  then show ?case
  proof cases
    case eq
    with hit row have "off \<le> a \<and> a < off + len" by simp
    moreover from eq mid have "mid = int tgt" by simp
    ultimately show ?thesis using ix row by (simp add: mid_def [symmetric])
  next
    case less
    from wf_rows_end_le_offset [OF wf less tgt] row hit have "off + len \<le> a" by simp
    moreover from wf_rows_nth [OF wf m] row have "0 < len" by simp
    ultimately have "\<not> (off \<le> a \<and> a < off + len)" by simp
    moreover
    from div P have "hi - (mid + 1) + 1 < P" by linarith
    with less mid Suc.prems
    have "find_start_location depth rows a (mid + 1) hi = Inr (int tgt)"
      unfolding P_def by (intro Suc.IH) linarith+
    ultimately show ?thesis using ix row \<open>off + len \<le> a\<close>
      by (simp add: mid_def [symmetric])
  next
    case greater
    from wf_rows_end_le_offset [OF wf greater m] row hit have "a < off" by simp
    moreover from wf_rows_nth [OF wf m] row have "0 < len" by simp
    ultimately have no: "\<not> (off \<le> a \<and> a < off + len)" "\<not> off + len \<le> a" by simp_all
    from div P have "(mid - 1) - lo + 1 < P" by linarith
    with greater mid Suc.prems
    have "find_start_location depth rows a lo (mid - 1) = Inr (int tgt)"
      unfolding P_def by (intro Suc.IH) linarith+
    with no show ?thesis using ix row
      by (simp add: mid_def [symmetric])
  qed
qed

lemma follows_exons_snoc:
  "follows_exons rows k algn \<Longrightarrow> algn \<noteq> [] \<Longrightarrow>
   reference_start (last algn) + piece_length (last algn) =
     row_start (rows ! (k + length algn - 1)) + row_length (rows ! (k + length algn - 1)) \<Longrightarrow>
   k + length algn < length rows \<Longrightarrow>
   reference_start q = row_start (rows ! (k + length algn)) \<Longrightarrow>
   0 \<le> piece_length q \<Longrightarrow> piece_length q \<le> row_length (rows ! (k + length algn)) \<Longrightarrow>
   follows_exons rows k (algn @ [q])"
proof (induction rows k algn rule: follows_exons.induct)
  case (1 rows k)
  then show ?case by simp
next
  case (2 rows k p)
  then show ?case by simp
next
  case (3 rows k p p' ps)
  from "3.prems" have "follows_exons rows (Suc k) ((p' # ps) @ [q])"
    by (intro "3.IH") simp_all
  with "3.prems" show ?case by simp
qed

lemma extend_alignment_wf:
  "wf_rows t rows \<Longrightarrow> algn \<noteq> [] \<Longrightarrow> idx = int (k + length algn - 1) \<Longrightarrow> k + length algn - 1 < length rows \<Longrightarrow>
    follows_exons rows k algn \<Longrightarrow>
    (0 < read_len \<longrightarrow> reference_start (last algn) + piece_length (last algn) =
       row_start (rows ! (k + length algn - 1)) + row_length (rows ! (k + length algn - 1))) \<Longrightarrow>
    row_offset (rows ! (k + length algn - 1)) + row_length (rows ! (k + length algn - 1)) + read_len
       \<le> t + spliced_length rows \<Longrightarrow>
    sum_list (map piece_length algn) + (if 0 < read_len then read_len else 0) = whole \<Longrightarrow>
    \<exists>out. extend_alignment rows read_len idx algn = Inr out \<and> follows_exons rows k out \<and>
          sum_list (map piece_length out) = whole"
proof (induction rows read_len idx algn rule: extend_alignment.induct)
  case (1 rows read_len idx algn)
  note wf = "1.prems"(1)
  let ?i = "k + length algn - 1"
  show ?case
  proof (cases "read_len > 0")
    case False
    then have "extend_alignment rows read_len idx algn = Inr algn"
      by (simp add: extend_alignment.simps [of rows read_len idx algn])
    with False "1.prems" show ?thesis by simp
  next
    case True
    have next_row: "Suc ?i < length rows"
    proof (rule ccontr)
      assume "\<not> Suc ?i < length rows"
      with "1.prems"(4) have "Suc ?i = length rows" by simp
      from wf_rows_last_end [OF wf this] "1.prems"(7) True show False by simp
    qed
    from "1.prems"(2) have si: "Suc ?i = k + length algn" by (cases algn) auto
    from "1.prems"(3) have idx1: "idx + 1 = int (Suc ?i)" by simp
    with next_row have ix: "py_index rows (idx + 1) = Inr (rows ! Suc ?i)"
      by (simp only: py_index_nat)
    obtain off gstart len where row: "rows ! Suc ?i = (off, gstart, len)"
      by (cases "rows ! Suc ?i") auto
    from "1.prems"(2) have last: "py_index algn (- 1) = Inr (last algn)"
      by (rule py_index_last)
    obtain rs rf ln where l: "last algn = (rs, rf, ln)"
      by (cases "last algn") auto
    let ?q = "(rs + ln, gstart, if read_len \<le> len then read_len else len)"
    from True ix row last l
    have step: "extend_alignment rows read_len idx algn =
                extend_alignment rows (read_len - len) (idx + 1) (algn @ [?q])"
      by (simp add: extend_alignment.simps [of rows read_len idx algn])
    from wf_rows_nth [OF wf next_row] row have len: "0 < len"
      and off: "off = t + spliced_length (take (Suc ?i) rows)" by simp_all
    from wf_rows_nth [OF wf "1.prems"(4)] spliced_length_take_Suc [OF "1.prems"(4)] off
    have off': "off = row_offset (rows ! ?i) + row_length (rows ! ?i)" by simp
    have a: "algn @ [?q] \<noteq> []" by simp
    have b: "idx + 1 = int (k + length (algn @ [?q]) - 1)"
      using idx1 si by simp
    have c: "k + length (algn @ [?q]) - 1 < length rows"
      using next_row si by simp
    have d: "follows_exons rows k (algn @ [?q])"
      using "1.prems"(5) "1.prems"(2) "1.prems"(6) True next_row si row len
      by (intro follows_exons_snoc) auto
    have pos: "k + length (algn @ [?q]) - 1 = Suc ?i" using si by simp
    have e: "0 < read_len - len \<longrightarrow>
        reference_start (last (algn @ [?q])) + piece_length (last (algn @ [?q])) =
        row_start (rows ! (k + length (algn @ [?q]) - 1)) +
        row_length (rows ! (k + length (algn @ [?q]) - 1))"
      unfolding pos using row by auto
    have f: "row_offset (rows ! (k + length (algn @ [?q]) - 1)) +
        row_length (rows ! (k + length (algn @ [?q]) - 1)) + (read_len - len)
        \<le> t + spliced_length rows"
      unfolding pos using row off' "1.prems"(7) by simp
    have g: "sum_list (map piece_length (algn @ [?q])) +
        (if 0 < read_len - len then read_len - len else 0) = whole"
      using "1.prems"(8) True by auto
    from "1.IH" [OF True ix row [symmetric] refl last l [symmetric] refl wf a b c d e f g] step
    show ?thesis by simp
  qed
qed

lemma find_alignment_wf:
  assumes wf: "wf_rows 0 rows" and a: "0 \<le> a" "a < spliced_length rows"
    and r: "0 \<le> read_len" "a + read_len \<le> spliced_length rows"
    and depth: "int (length rows) + 1 < 2 ^ depth"
  shows "\<exists>algn k. find_alignment depth read_len a rows = Inr algn \<and> aligned_at rows a k algn \<and>
           sum_list (map piece_length algn) = read_len"
proof -
  from wf_rows_covering [OF wf] a obtain tgt where tgt: "tgt < length rows"
    and hit: "row_offset (rows ! tgt) \<le> a" "a < row_offset (rows ! tgt) + row_length (rows ! tgt)"
    by auto
  from depth tgt
  have fsl: "find_start_location depth rows a 0 (int (length rows)) = Inr (int tgt)"
    by (intro find_start_location_wf [OF wf tgt hit]) simp_all
  from tgt have ix: "py_index rows (int tgt) = Inr (rows ! tgt)" by (rule py_index_nat)
  obtain off gstart len where row: "rows ! tgt = (off, gstart, len)"
    by (cases "rows ! tgt") auto
  let ?d = "a - off"
  let ?p = "(0::int, gstart + ?d, if read_len + ?d \<le> len then read_len else len - ?d)"
  from hit row have d: "0 \<le> ?d" "?d < len" by simp_all
  have "\<exists>out. extend_alignment rows (read_len - (len - ?d)) (int tgt) [?p] = Inr out \<and>
          follows_exons rows tgt out \<and> sum_list (map piece_length out) = read_len"
  proof (rule extend_alignment_wf [OF wf])
    show "[?p] \<noteq> []" by simp
    show "int tgt = int (tgt + length [?p] - 1)" by simp
    show "tgt + length [?p] - 1 < length rows" using tgt by simp
    show "follows_exons rows tgt [?p]" using tgt row d r by auto
    show "0 < read_len - (len - ?d) \<longrightarrow>
      reference_start (last [?p]) + piece_length (last [?p]) =
      row_start (rows ! (tgt + length [?p] - 1)) + row_length (rows ! (tgt + length [?p] - 1))"
      using row by auto
    show "row_offset (rows ! (tgt + length [?p] - 1)) + row_length (rows ! (tgt + length [?p] - 1)) +
      (read_len - (len - ?d)) \<le> 0 + spliced_length rows"
      using row r by simp
    show "sum_list (map piece_length [?p]) +
      (if 0 < read_len - (len - ?d) then read_len - (len - ?d) else 0) = read_len"
      by auto
  qed
  then obtain out where out: "extend_alignment rows (read_len - (len - ?d)) (int tgt) [?p] = Inr out"
    and fe: "follows_exons rows tgt out" and sm: "sum_list (map piece_length out) = read_len"
    by blast
  from extend_alignment_hd [OF out] extend_alignment_nonempty [OF out]
  have "hd out = ?p" "out \<noteq> []" by simp_all
  with fe tgt hit row have "aligned_at rows a tgt out"
    by (simp add: aligned_at_def)
  moreover from fsl ix row out have "find_alignment depth read_len a rows = Inr out"
    by (simp add: find_alignment_def)
  ultimately show ?thesis using sm by blast
qed

subsection \<open>The transcriptome cell builds well-formed entries\<close>

lemma py_slice_length: "a \<le> b \<Longrightarrow> int (length (py_slice xs a b)) \<le> b - a"
  by (auto simp: py_slice_def py_clip_def)

lemma splice_wf:
  "splice genome exs isoform rows total_len = (isoform', rows') \<Longrightarrow>
   \<forall>ex\<in>set exs. exon_start ex < exon_end ex \<Longrightarrow>
   wf_rows 0 rows \<Longrightarrow> total_len = spliced_length rows \<Longrightarrow>
   int (length isoform) \<le> total_len \<Longrightarrow>
   wf_rows 0 rows' \<and> int (length isoform') \<le> spliced_length rows'"
proof (induction genome exs isoform rows total_len rule: splice.induct)
  case (1 genome isoform rows total_len)
  then show ?case by simp
next
  case (2 genome ex exs isoform rows total_len)
  from "2.prems"(2) have ex: "exon_start ex < exon_end ex" by simp
  with py_slice_length [of "exon_start ex" "exon_end ex" genome]
  have "int (length (py_slice genome (exon_start ex) (exon_end ex))) \<le> exon_end ex - exon_start ex"
    by simp
  with "2.prems" ex show ?case
    by (intro "2.IH") (auto simp: wf_rows_append)
qed

lemma transcriptome_entry_wf:
  "\<forall>ex\<in>set (exons isf). exon_start ex < exon_end ex \<Longrightarrow> wf_entry (transcriptome_entry genome isf)"
  using splice_wf [of genome "exons isf" "[]" "[]" 0]
  by (cases "splice genome (exons isf) [] [] 0") (auto simp: wf_entry_def transcriptome_entry_def)

lemma entries_of_build:
  "entries_of (build_transcriptome genome genes) =
     concat (map (\<lambda>g. map (transcriptome_entry genome) (isoforms g)) genes)"
  by (simp add: entries_of_def build_transcriptome_def comp_def)

lemma build_transcriptome_wf:
  assumes "\<forall>g\<in>set genes. \<forall>isf\<in>set (isoforms g). \<forall>ex\<in>set (exons isf). exon_start ex < exon_end ex"
  shows "\<forall>e\<in>set (entries_of (build_transcriptome genome genes)). wf_entry e"
  using assms by (auto simp: entries_of_build intro: transcriptome_entry_wf)

subsection \<open>A read taken verbatim from an isoform\<close>

lemma occurs_in_matches:
  assumes "occurs_in read isoform"
  shows "\<exists>i. matches_within max_mm read isoform i \<and> mismatches_at read isoform i (length read) = 0"
proof -
  from assms obtain i where mem: "i \<in> set [0..<Suc (length isoform)]"
    and eq: "take (length read) (drop i isoform) = read"
    unfolding occurs_in_def by blast
  from mem have i: "i \<le> length isoform" by auto
  from eq have "length (take (length read) (drop i isoform)) = length read" by simp
  then have "length read \<le> length isoform - i" by simp
  with i have len: "i + length read \<le> length isoform" by linarith
  have "isoform ! (i + k) = read ! k" if "k < length read" for k
  proof -
    from that len have "take (length read) (drop i isoform) ! k = isoform ! (i + k)" by simp
    with eq show ?thesis by simp
  qed
  then have "filter (\<lambda>k. isoform ! (i + k) \<noteq> read ! k) [0..<length read] = []"
    by (auto simp: filter_empty_conv)
  then have "mismatches_at read isoform i (length read) = 0"
    by (simp add: mismatches_at_def)
  with len show ?thesis by (auto simp: matches_within_def)
qed

lemma matches_verbatim:
  assumes "i + length read \<le> length isoform" "mismatches_at read isoform i (length read) = 0"
  shows "take (length read) (drop i isoform) = read"
proof (rule nth_equalityI)
  from assms(1) show "length (take (length read) (drop i isoform)) = length read" by simp
next
  fix k assume "k < length (take (length read) (drop i isoform))"
  with assms(1) have k: "k < length read" by simp
  from assms(2) have "filter (\<lambda>k. isoform ! (i + k) \<noteq> read ! k) [0..<length read] = []"
    by (simp add: mismatches_at_def)
  with k have "isoform ! (i + k) = read ! k" by (auto simp: filter_empty_conv)
  with k assms(1) show "take (length read) (drop i isoform) ! k = read ! k" by simp
qed

lemma align_to_isoform_wf_nonempty:
  assumes wf: "wf_entry (isoform, rows)" and read: "read \<noteq> []" and depth: "int (length rows) + 1 < 2 ^ depth"
  shows "\<exists>res. align_to_isoform depth max_mm read isoform rows = Inr res \<and>
     (\<forall>algn mm. res = Some (algn, mm) \<longrightarrow>
        sum_list (map piece_length algn) = int (length read) \<and>
        (\<exists>i k. i + length read \<le> length isoform \<and>
           mm = mismatches_at read isoform i (length read) \<and> aligned_at rows (int i) k algn))"
proof -
  have fa: "\<exists>algn k. find_alignment depth (int (length read)) (int i) rows = Inr algn \<and>
      aligned_at rows (int i) k algn \<and> sum_list (map piece_length algn) = int (length read)"
    if "matches_within max_mm read isoform i" for i
  proof -
    from that have le: "i + length read \<le> length isoform" by (simp add: matches_within_def)
    from read have "length read \<noteq> 0" by simp
    with le have lt: "i < length isoform" by linarith
    from wf have "int (length isoform) \<le> spliced_length rows" by (simp add: wf_entry_def)
    with le lt have "int i + int (length read) \<le> spliced_length rows" "int i < spliced_length rows"
      by linarith+
    with wf depth show ?thesis
      by (intro find_alignment_wf) (auto simp: wf_entry_def)
  qed
  then have "\<exists>res. align_to_isoform depth max_mm read isoform rows = Inr res"
    by (intro align_to_isoform_total) blast
  then obtain res where res: "align_to_isoform depth max_mm read isoform rows = Inr res" ..
  have "sum_list (map piece_length algn) = int (length read) \<and>
        (\<exists>i k. i + length read \<le> length isoform \<and>
           mm = mismatches_at read isoform i (length read) \<and> aligned_at rows (int i) k algn)"
    if "res = Some (algn, mm)" for algn mm
  proof -
    from align_to_isoform_some [OF res [unfolded that]] obtain i where
      "matches_within max_mm read isoform i" "mm = mismatches_at read isoform i (length read)"
      "find_alignment depth (int (length read)) (int i) rows = Inr algn" by blast
    with fa [of i] show ?thesis by (auto simp: matches_within_def)
  qed
  with res show ?thesis by blast
qed

lemma count_mismatches_empty: "count_mismatches max_mm [] isoform i 0 0 = Inr (0, 0)"
  by (simp add: count_mismatches.simps [of max_mm "[]" isoform i 0 0])

lemma scan_offsets_empty_keep:
  "scan_offsets max_mm [] isoform offs (Some (i0, 0)) = Inr (Some (i0, 0))"
  by (induction offs) (simp_all add: count_mismatches_empty)

lemma align_to_isoform_empty:
  "align_to_isoform depth max_mm [] isoform rows =
     (case find_alignment depth 0 0 rows of Inl e \<Rightarrow> Inl e | Inr algn \<Rightarrow> Inr (Some (algn, 0)))"
proof -
  have "nat (int (length isoform) - int (length ([]::string)) + 1) = Suc (length isoform)"
    by simp
  moreover have "[0..<Suc (length isoform)] = 0 # [Suc 0..<Suc (length isoform)]"
    by (rule upt_conv_Cons) simp
  ultimately have l: "[0..<nat (int (length isoform) - int (length ([]::string)) + 1)] =
      0 # [Suc 0..<Suc (length isoform)]" by simp
  show ?thesis
    unfolding align_to_isoform_def l
    by (simp add: count_mismatches_empty scan_offsets_empty_keep del: upt_Suc)
qed

lemma align_to_isoform_wf_empty:
  assumes wf: "wf_entry (isoform, rows)" and rows: "rows \<noteq> []"
    and depth: "int (length rows) + 1 < 2 ^ depth"
  shows "\<exists>res. align_to_isoform depth max_mm [] isoform rows = Inr res \<and>
     (\<forall>algn mm. res = Some (algn, mm) \<longrightarrow>
        sum_list (map piece_length algn) = int (length ([]::string)) \<and>
        (\<exists>i k. i + length ([]::string) \<le> length isoform \<and>
           mm = mismatches_at [] isoform i (length ([]::string)) \<and> aligned_at rows (int i) k algn))"
proof -
  from wf have w: "wf_rows 0 rows" by (simp add: wf_entry_def)
  from wf_rows_positive [OF w rows] have pos: "0 < spliced_length rows" .
  from find_alignment_wf [OF w _ pos _ _ depth, of 0] pos obtain algn k where
    fa: "find_alignment depth 0 0 rows = Inr algn" and al: "aligned_at rows 0 k algn"
    and sm: "sum_list (map piece_length algn) = 0"
    by auto
  from fa have "align_to_isoform depth max_mm [] isoform rows = Inr (Some (algn, 0))"
    by (simp add: align_to_isoform_empty)
  moreover have "\<exists>i k. i + length ([]::string) \<le> length isoform \<and>
      (0::nat) = mismatches_at [] isoform i (length ([]::string)) \<and> aligned_at rows (int i) k algn"
    using al by (intro exI [of _ 0] exI [of _ k]) (simp add: mismatches_at_0)
  ultimately show ?thesis using sm by auto
qed

lemma align_to_isoform_wf:
  assumes wf: "wf_entry (isoform, rows)" and read: "read \<noteq> [] \<or> rows \<noteq> []"
    and depth: "int (length rows) + 1 < 2 ^ depth"
  shows "\<exists>res. align_to_isoform depth max_mm read isoform rows = Inr res \<and>
     (\<forall>algn mm. res = Some (algn, mm) \<longrightarrow>
        sum_list (map piece_length algn) = int (length read) \<and>
        (\<exists>i k. i + length read \<le> length isoform \<and>
           mm = mismatches_at read isoform i (length read) \<and> aligned_at rows (int i) k algn))"
proof (cases "read = []")
  case True
  with read have "rows \<noteq> []" by simp
  from align_to_isoform_wf_empty [OF wf this depth, of max_mm] True show ?thesis by simp
next
  case False
  from align_to_isoform_wf_nonempty [OF wf False depth] show ?thesis .
qed

lemma align_entries_best:
  "\<forall>(isoform, rows)\<in>set es. \<exists>r. align_to_isoform depth max_mm read isoform rows = Inr r \<Longrightarrow>
   \<exists>res. align_entries depth max_mm read es match = Inr res \<and>
     (\<forall>a m. match = Some (a, m) \<longrightarrow> (\<exists>a' m'. res = Some (a', m') \<and> m' \<le> m)) \<and>
     (\<forall>e\<in>set es. \<forall>a m.
        align_to_isoform depth max_mm read (fst e) (snd e) = Inr (Some (a, m)) \<longrightarrow>
        (\<exists>a' m'. res = Some (a', m') \<and> m' \<le> m))"
proof (induction es arbitrary: match)
  case Nil
  then show ?case by simp
next
  case (Cons x es)
  obtain isoform rows where x: "x = (isoform, rows)" by (cases x) auto
  from Cons.prems x obtain r where r: "align_to_isoform depth max_mm read isoform rows = Inr r"
    by auto
  from Cons.prems
  have rest: "\<forall>(isoform, rows)\<in>set es. \<exists>r. align_to_isoform depth max_mm read isoform rows = Inr r"
    by simp
  show ?case
  proof (cases r)
    case None
    from Cons.IH [OF rest, of match] obtain res where
      "align_entries depth max_mm read es match = Inr res"
      "\<forall>a m. match = Some (a, m) \<longrightarrow> (\<exists>a' m'. res = Some (a', m') \<and> m' \<le> m)"
      "\<forall>e\<in>set es. \<forall>a m.
        align_to_isoform depth max_mm read (fst e) (snd e) = Inr (Some (a, m)) \<longrightarrow>
        (\<exists>a' m'. res = Some (a', m') \<and> m' \<le> m)" by (elim exE conjE)
    with None r x show ?thesis by auto
  next
    case (Some am)
    obtain a0 m0 where am: "am = (a0, m0)" by (cases am) auto
    let ?m = "if (case match of None \<Rightarrow> True | Some (a, best) \<Rightarrow> m0 \<le> best)
             then Some (a0, m0) else match"
    from Cons.IH [OF rest, of ?m] obtain res where
      run: "align_entries depth max_mm read es ?m = Inr res"
      and keep: "\<forall>a m. ?m = Some (a, m) \<longrightarrow> (\<exists>a' m'. res = Some (a', m') \<and> m' \<le> m)"
      and best: "\<forall>e\<in>set es. \<forall>a m.
        align_to_isoform depth max_mm read (fst e) (snd e) = Inr (Some (a, m)) \<longrightarrow>
        (\<exists>a' m'. res = Some (a', m') \<and> m' \<le> m)" by (elim exE conjE)
    from run r Some am x
    have "align_entries depth max_mm read (x # es) match = Inr res" by simp
    moreover have "\<exists>a' m'. res = Some (a', m') \<and> m' \<le> m" if "match = Some (a, m)" for a m
    proof (cases "m0 \<le> m")
      case True
      with that have "?m = Some (a0, m0)" by simp
      with keep obtain a' m' where "res = Some (a', m')" "m' \<le> m0" by metis
      with True show ?thesis by auto
    next
      case False
      with that have "?m = Some (a, m)" by simp
      with keep show ?thesis by metis
    qed
    moreover have "\<exists>a' m'. res = Some (a', m') \<and> m' \<le> m0"
    proof (cases match)
      case None
      then have "?m = Some (a0, m0)" by simp
      with keep show ?thesis by metis
    next
      case (Some bm)
      obtain b m where bm: "bm = (b, m)" by (cases bm) auto
      show ?thesis
      proof (cases "m0 \<le> m")
        case True
        with Some bm have "?m = Some (a0, m0)" by simp
        with keep show ?thesis by metis
      next
        case False
        with Some bm have "?m = Some (b, m)" by simp
        with keep obtain a' m' where "res = Some (a', m')" "m' \<le> m" by metis
        with False show ?thesis by auto
      qed
    qed
    ultimately show ?thesis using best r Some am x by auto
  qed
qed

text \<open>
  C4. Let every entry of the transcriptome be well formed (its table built from exons with
  \<open>end > start\<close>), let the recursion limit leave room for the binary search
  (\<open>len(exons) + 1 < 2 ^ depth\<close>), and let the read be non-empty or every isoform have
  an exon. If the read occurs verbatim in the spliced sequence of some isoform,
  \<open>align_to_transcriptome\<close> returns 0 mismatches and an alignment whose lengths sum to
  the length of the read; the alignment belongs to an isoform that contains the read
  verbatim at some offset \<open>i\<close>, its first piece starts at the place of \<open>i\<close> in the
  genome, and where it goes on into the next exon the piece ends exactly at the end of its
  exon and the next piece starts exactly at the start of the next exon.
\<close>

theorem align_to_transcriptome_verbatim:
  assumes wf: "\<forall>e\<in>set (entries_of t). wf_entry e"
    and depth: "\<forall>(isoform, rows)\<in>set (entries_of t). int (length rows) + 1 < 2 ^ depth"
    and read: "read \<noteq> [] \<or> (\<forall>(isoform, rows)\<in>set (entries_of t). rows \<noteq> [])"
    and occ: "\<exists>(isoform, rows)\<in>set (entries_of t). occurs_in read isoform"
  shows "\<exists>algn. align_to_transcriptome depth max_mm read t = Inr (Some (algn, 0)) \<and>
           sum_list (map piece_length algn) = int (length read) \<and>
           (\<exists>(isoform, rows)\<in>set (entries_of t). \<exists>i k.
              take (length read) (drop i isoform) = read \<and> aligned_at rows (int i) k algn)"
proof -
  have each: "\<exists>res. align_to_isoform depth max_mm read isoform rows = Inr res \<and>
     (\<forall>algn mm. res = Some (algn, mm) \<longrightarrow>
        sum_list (map piece_length algn) = int (length read) \<and>
        (\<exists>i k. i + length read \<le> length isoform \<and>
           mm = mismatches_at read isoform i (length read) \<and> aligned_at rows (int i) k algn))"
    if "(isoform, rows) \<in> set (entries_of t)" for isoform rows
    using that wf depth read by (intro align_to_isoform_wf) auto
  then have "\<forall>(isoform, rows)\<in>set (entries_of t).
      \<exists>r. align_to_isoform depth max_mm read isoform rows = Inr r" by blast
  from align_entries_best [OF this, of None] obtain res where
    run: "align_entries depth max_mm read (entries_of t) None = Inr res"
    and best: "\<forall>e\<in>set (entries_of t). \<forall>a m.
        align_to_isoform depth max_mm read (fst e) (snd e) = Inr (Some (a, m)) \<longrightarrow>
        (\<exists>a' m'. res = Some (a', m') \<and> m' \<le> m)" by auto
  from occ obtain isoform rows where mem: "(isoform, rows) \<in> set (entries_of t)"
    and o: "occurs_in read isoform" by auto
  from occurs_in_matches [OF o, of max_mm] obtain i where
    i: "matches_within max_mm read isoform i" "mismatches_at read isoform i (length read) = 0"
    by blast
  from each [OF mem] obtain r where r: "align_to_isoform depth max_mm read isoform rows = Inr r"
    by blast
  from align_to_isoform_hit [OF i(1) r] i(2) obtain a where "r = Some (a, 0)" by auto
  with r best mem obtain algn where res: "res = Some (algn, 0)" by fastforce
  from align_entries_result [OF run] res obtain isoform' rows' where
    mem': "(isoform', rows') \<in> set (entries_of t)"
    and r': "align_to_isoform depth max_mm read isoform' rows' = Inr (Some (algn, 0))" by auto
  from each [OF mem'] r' obtain i' k where
    sm: "sum_list (map piece_length algn) = int (length read)"
    and i': "i' + length read \<le> length isoform'" "mismatches_at read isoform' i' (length read) = 0"
    and al: "aligned_at rows' (int i') k algn"
    by auto
  from matches_verbatim [OF i'] have "take (length read) (drop i' isoform') = read" .
  with mem' al have "\<exists>(isoform, rows)\<in>set (entries_of t). \<exists>i k.
              take (length read) (drop i isoform) = read \<and> aligned_at rows (int i) k algn"
    by blast
  with sm run res show ?thesis
    by (auto simp: align_to_transcriptome_def align_genes_entries)
qed

theorem align_to_transcriptome_verbatim_witness:
  "\<exists>algn. align_to_transcriptome 10 6 ''GTGG'' example_transcriptome = Inr (Some (algn, 0)) \<and>
     sum_list (map piece_length algn) = int (length ''GTGG'') \<and>
     (\<exists>(isoform, rows)\<in>set (entries_of example_transcriptome). \<exists>i k.
        take (length ''GTGG'') (drop i isoform) = ''GTGG'' \<and> aligned_at rows (int i) k algn)"
proof (rule align_to_transcriptome_verbatim)
  have "\<forall>g\<in>set example_genes. \<forall>isf\<in>set (isoforms g). \<forall>ex\<in>set (exons isf).
      exon_start ex < exon_end ex"
    by (simp add: example_genes_def)
  then show "\<forall>e\<in>set (entries_of example_transcriptome). wf_entry e"
    unfolding example_transcriptome_def by (rule build_transcriptome_wf)
  show "\<forall>(isoform, rows)\<in>set (entries_of example_transcriptome).
      int (length rows) + 1 < 2 ^ 10"
    by (simp add: example_entries)
  show "''GTGG'' \<noteq> [] \<or>
      (\<forall>(isoform, rows)\<in>set (entries_of example_transcriptome). rows \<noteq> [])" by simp
  have "occurs_in ''GTGG'' ''ACGTGGGC''" by code_simp
  then show "\<exists>(isoform, rows)\<in>set (entries_of example_transcriptome). occurs_in ''GTGG'' isoform"
    by (simp add: example_entries)
qed

text \<open>
  The last condition is needed: the empty read matches an isoform without exons at offset
  0, and \<open>find_alignment\<close> then reads \<open>exons[0]\<close> of an empty table.
\<close>

lemma align_to_isoform_empty_read:
  "align_to_isoform 10 6 [] [] [] = Inl IndexError"
  by code_simp

subsection \<open>The mismatch budget of the seed search\<close>

lemma try_changes_misses:
  "try_changes esm rs idx misses cs st = st \<or>
     snd (try_changes esm rs idx misses cs st) \<and>
     msf_misses (fst (try_changes esm rs idx misses cs st)) = misses + 1"
proof (induction cs arbitrary: st)
  case Nil
  then show ?case by simp
next
  case (Cons change cs)
  obtain m u where st: "st = (m, u)" by (cases st) auto
  obtain new_range new_length where
    new: "esm (replace_base_at_index rs idx change) = (new_range, new_length)"
    by (cases "esm (replace_base_at_index rs idx change)") auto
  show ?case
  proof (cases "new_length > msf_length m")
    case True
    with Cons.IH [of "((new_range, new_length, replace_base_at_index rs idx change, misses + 1), True)"]
      st new show ?thesis by auto
  next
    case False
    with Cons.IH [of "(m, u)"] st new show ?thesis by auto
  qed
qed

lemma seed_loop_misses:
  "seed_loop esm rs length0 mismatches m0 = Inr m \<Longrightarrow> msf_misses m0 \<le> mismatches \<Longrightarrow>
     msf_misses m0 \<le> msf_misses m \<and> msf_misses m \<le> mismatches"
proof (induction esm rs length0 mismatches m0 rule: seed_loop.induct)
  case (1 esm rs length0 mismatches m0)
  show ?case
  proof (cases "msf_misses m0 < mismatches \<and> msf_length m0 < length rs")
    case False
    have "seed_loop esm rs length0 mismatches m0 = Inr m0"
      by (subst seed_loop.simps, rule if_not_P, rule False)
    with "1.prems" show ?thesis by simp
  next
    case True
    with "1.prems"(1) obtain c where
      c: "py_index (msf_read m0) (int (length rs) - int (msf_length m0) - 1) = Inr c"
      by (auto simp: seed_loop.simps [of esm rs length0 mismatches m0] split: sum.splits)
    define res where "res = try_changes esm rs (int (length rs) - int length0 - 1)
        (msf_misses m0) (filter (\<lambda>b. b \<noteq> c) BASES) (m0, False)"
    obtain m' u where res: "res = (m', u)" by (cases res) auto
    from try_changes_misses [of esm rs "int (length rs) - int length0 - 1" "msf_misses m0"
        "filter (\<lambda>b. b \<noteq> c) BASES" "(m0, False)"] res
    have alt: "(m' = m0 \<and> \<not> u) \<or> (u \<and> msf_misses m' = msf_misses m0 + 1)"
      by (auto simp: res_def [symmetric])
    show ?thesis
    proof (cases u)
      case False
      with True c res "1.prems"(1) have "m = m'"
        by (simp add: seed_loop.simps [of esm rs length0 mismatches m0] res_def [symmetric])
      with alt False "1.prems"(2) show ?thesis by auto
    next
      case u: True
      with True c res "1.prems"(1) have run: "seed_loop esm rs length0 mismatches m' = Inr m"
        by (simp add: seed_loop.simps [of esm rs length0 mismatches m0] res_def [symmetric])
      from alt u have m': "msf_misses m' = msf_misses m0 + 1" by simp
      with True have le: "msf_misses m' \<le> mismatches" by simp
      from res have split: "(m', u) = try_changes esm rs (int (length rs) - int length0 - 1)
          (msf_misses m0) (filter (\<lambda>b. b \<noteq> c) BASES) (m0, False)"
        by (simp add: res_def)
      from "1.IH" [OF True c split u run le]
      have "msf_misses m' \<le> msf_misses m \<and> msf_misses m \<le> mismatches" .
      with m' show ?thesis by simp
    qed
  qed
qed

text \<open>
  C6. For a budget \<open>mismatches >= 0\<close>, every matcher and every suffix array: no seed that
  \<open>find_seeds\<close> reports has consumed more than \<open>mismatches\<close>, the seeds together have
  not consumed more either, and there are at most \<open>k\<close> of them. The first seed either
  covers the read, and is the only one, or the other seeds are those of a call of
  \<open>find_seeds\<close> on the remainder with the budget \<open>mismatches\<close> minus what the first
  seed consumed and the seed count \<open>k - 1\<close>.
\<close>

theorem find_seeds_budget:
  "0 \<le> mismatches \<Longrightarrow> find_seeds esm sa read_sequence mismatches k = Inr seeds \<Longrightarrow>
     (\<forall>s\<in>set seeds. 0 \<le> seed_mismatches s \<and> seed_mismatches s \<le> mismatches) \<and>
     sum_list (map seed_mismatches seeds) \<le> mismatches \<and>
     length seeds \<le> k \<and>
     (case seeds of
        [] \<Rightarrow> k = 0
      | s # rest \<Rightarrow>
          (seed_length s = length read_sequence \<and> rest = []) \<or>
          (\<exists>remainder. find_seeds esm sa remainder (mismatches - seed_mismatches s) (k - 1) = Inr rest))"
proof (induction k arbitrary: read_sequence mismatches seeds)
  case 0
  then show ?case by simp
next
  case (Suc k)
  obtain interval length0 where e: "esm (rev read_sequence) = (interval, length0)"
    by (cases "esm (rev read_sequence)") auto
  from Suc.prems(2) e obtain m where
    loop: "seed_loop esm (rev read_sequence) length0 mismatches
             (interval, length0, rev read_sequence, 0) = Inr m"
    by (auto split: sum.splits)
  from Suc.prems(2) e loop obtain first where
    first: "py_index sa (int (fst (msf_range m))) = Inr first"
    by (cases "py_index sa (int (fst (msf_range m)))") auto
  from Suc.prems(2) e loop first obtain second where
    second: "py_index sa (int (snd (msf_range m))) = Inr second"
    by (cases "py_index sa (int (snd (msf_range m)))") auto
  from seed_loop_misses [OF loop] Suc.prems(1)
  have mm: "0 \<le> msf_misses m" "msf_misses m \<le> mismatches" by simp_all
  let ?s = "([first, second], msf_length m, msf_misses m,
             py_from (msf_read m) (int (length read_sequence) - int (msf_length m)))"
  show ?case
  proof (cases "length read_sequence = msf_length m")
    case True
    with Suc.prems(2) e loop first second have "seeds = [?s]" by simp
    with mm True show ?thesis by simp
  next
    case False
    let ?rem = "py_upto (msf_read m) (int (length (msf_read m)) - int (msf_length m))"
    from False Suc.prems(2) e loop first second obtain rest where
      rest: "find_seeds esm sa ?rem (mismatches - msf_misses m) k = Inr rest"
      and seeds: "seeds = ?s # rest"
      by (auto split: sum.splits)
    from mm have "0 \<le> mismatches - msf_misses m" by simp
    from Suc.IH [OF this rest]
    have ih: "\<forall>s\<in>set rest. 0 \<le> seed_mismatches s \<and> seed_mismatches s \<le> mismatches - msf_misses m"
      "sum_list (map seed_mismatches rest) \<le> mismatches - msf_misses m" "length rest \<le> k"
      by simp_all
    from ih(1) mm have "\<forall>s\<in>set rest. 0 \<le> seed_mismatches s \<and> seed_mismatches s \<le> mismatches"
      by fastforce
    with ih(2,3) mm seeds rest show ?thesis by auto
  qed
qed

theorem find_seeds_budget_witness:
  "(0::int) \<le> 6 \<and>
   find_seeds example_esm example_sa ''TGCATGAAGG'' 6 3 =
     Inr [([4, 9], 8, 1, ''ACGTACGT''), ([9, 10], 2, 1, ''CG'')] \<and>
   sum_list (map seed_mismatches [([4, 9], 8, 1, ''ACGTACGT''), ([9, 10], 2, 1, ''CG'')]) \<le> 6 \<and>
   length [([4::nat, 9], 8::nat, 1::int, ''ACGTACGT''), ([9, 10], 2, 1, ''CG'')] \<le> 3"
proof -
  have h: "(0::int) \<le> 6" by simp
  note c = find_seeds_budget [OF h example_seeds]
  from c have a: "sum_list (map seed_mismatches
      [([4, 9], 8, 1, ''ACGTACGT''), ([9, 10], 2, 1, ''CG'')]) \<le> 6" by (elim conjE)
  from c have b: "length [([4::nat, 9], 8::nat, 1::int, ''ACGTACGT''), ([9, 10], 2, 1, ''CG'')] \<le> 3"
    by (elim conjE)
  show ?thesis by (intro conjI h example_seeds a b)
qed

subsection \<open>Filtering seed positions\<close>

lemma check_seeds_loop_filter:
  "\<forall>i\<in>set is. i < length sa \<Longrightarrow>
   check_seeds_loop sa genome_len len high_bound is valid =
     Inr (valid @ map (\<lambda>i. int genome_len + 1 - (int (sa ! i) + len))
                    (filter (\<lambda>i. kept high_bound (int (sa ! i) + len)) is))"
proof (induction "is" arbitrary: valid)
  case Nil
  then show ?case by simp
next
  case (Cons i "is")
  from Cons.prems have i: "py_index sa (int i) = Inr (sa ! i)" by (simp add: py_index_nat)
  have k: "(case high_bound of None \<Rightarrow> True
            | Some hb \<Rightarrow> hb = 0 \<or>
                (int (sa ! i) + len < hb \<and> MIN_INTRON_SIZE \<le> hb - (int (sa ! i) + len) \<and>
                 hb - (int (sa ! i) + len) \<le> MAX_INTRON_SIZE))
         = kept high_bound (int (sa ! i) + len)"
    by (auto simp: kept_def MIN_INTRON_SIZE_def split: option.splits)
  from Cons.prems Cons.IH show ?case
    by (simp add: i k Let_def del: check_seeds_loop.simps(2)
        add: check_seeds_loop.simps(2) [of sa genome_len len high_bound i "is" valid])
qed

lemma check_seeds_filter:
  "hi \<le> length sa \<Longrightarrow>
   check_seeds sa genome_len (lo, hi) len high_bound =
     Inr (map (\<lambda>i. int genome_len + 1 - (int (sa ! i) + len))
            (filter (\<lambda>i. kept high_bound (int (sa ! i) + len)) [lo..<hi]))"
  using check_seeds_loop_filter [of "[lo..<hi]" sa genome_len len high_bound "[]"]
  by (simp add: check_seeds_def)

text \<open>
  C7 at \<open>high_bound = 0\<close>: \<open>not high_bound\<close> holds, and \<open>check_seeds\<close> keeps all
  three positions of the interval, as it does with no bound at all, although none of them
  has a gap to the bound in \<open>[20, 10000]\<close>; with \<open>high_bound = 1\<close> it keeps none, and
  with \<open>high_bound = 30\<close> the two positions whose gaps are 22 and 26.
  For every other bound \<open>check_seeds_filter\<close> above gives what the claim says.
\<close>

theorem check_seeds_zero_bound:
  "check_seeds example_sa 12 (1, 4) 4 (Some 0) = Inr [1, 5, 9] \<and>
   check_seeds example_sa 12 (1, 4) 4 None = Inr [1, 5, 9] \<and>
   check_seeds example_sa 12 (1, 4) 4 (Some 1) = Inr [] \<and>
   check_seeds example_sa 12 (1, 4) 4 (Some 30) = Inr [5, 9]"
  by code_simp

text \<open>
  C3, with the index of \<open>ACGTACGTACGT$\<close>: the read \<open>TGCA\<close>, reversed, matches exactly with the
  suffix array interval \<open>(1, 4)\<close>, whose positions are \<open>sa[1], sa[2], sa[3] = 8, 4, 0\<close>.
  The seed that \<open>find_seeds\<close> reports has the positions \<open>[sa[1], sa[4]] = [8, 9]\<close>:
  the two ends of the pair, the second of them outside the interval. For the read
  \<open>TCCATGGA\<close> the second seed has the interval \<open>(11, 13)\<close>, and \<open>sa[13]\<close> is beyond
  the suffix array: the call raises.
\<close>

theorem find_seeds_positions:
  "example_esm ''ACGT'' = ((1, 4), 4) \<and>
   find_seeds example_esm example_sa ''TGCA'' 6 3 = Inr [([8, 9], 4, 0, ''ACGT'')] \<and>
   map (\<lambda>i. example_sa ! i) [1..<4] = [8, 4, 0] \<and>
   find_seeds example_esm example_sa ''TCCATGGA'' 6 3 = Inl IndexError"
  by code_simp

text \<open>
  C2, with the index of \<open>ACGTACGTACGT$\<close>: the reversed read \<open>AGGTACCT\<close> matches exactly with
  length 1. The first round substitutes at index 6 and reaches length 6 with the read
  \<open>AGGTACGT\<close>. In the second round the candidates of the loop are again the original read
  with index 6 replaced, and the loop stops at length 6 with one mismatch of six used; the
  candidates the claim describes replace index 1 of \<open>AGGTACGT\<close>, and \<open>ACGTACGT\<close> among
  them matches with the full length 8.
\<close>

theorem find_seeds_second_substitution:
  "example_esm ''AGGTACCT'' = ((10, 13), 1) \<and>
   seed_loop example_esm ''AGGTACCT'' 1 6 ((10, 13), 1, ''AGGTACCT'', 0) =
     Inr ((8, 10), 6, ''AGGTACGT'', 1) \<and>
   map (replace_base_at_index ''AGGTACCT'' (8 - 1 - 1)) (filter (\<lambda>b. b \<noteq> CHR ''G'') BASES) =
     [''AGGTACAT'', ''AGGTACCT'', ''AGGTACTT''] \<and>
   map (replace_base_at_index ''AGGTACGT'' (8 - 6 - 1)) (filter (\<lambda>b. b \<noteq> CHR ''G'') BASES) =
     [''AAGTACGT'', ''ACGTACGT'', ''ATGTACGT''] \<and>
   example_esm ''ACGTACGT'' = ((2, 4), 8) \<and>
   find_seeds example_esm example_sa ''TCCATGGA'' 6 1 = Inr [([6, 11], 6, 1, ''GTACGT'')]"
  by code_simp

subsection \<open>One substitution per seed\<close>

lemma replace_base_same:
  assumes "0 \<le> idx" "idx < int (length rs)"
  shows "replace_base_at_index rs idx (rs ! nat idx) = rs"
proof -
  from assms have n: "nat idx < length rs" by simp
  from assms have "py_clip (length rs) idx = nat idx" "py_clip (length rs) (idx + 1) = Suc (nat idx)"
    by (auto simp: py_clip_def)
  then have "replace_base_at_index rs idx (rs ! nat idx) =
      take (nat idx) rs @ rs ! nat idx # drop (Suc (nat idx)) rs"
    by (simp add: replace_base_at_index_def py_upto_def py_from_def)
  with n show ?thesis by (simp add: id_take_nth_drop [symmetric])
qed

lemma try_changes_saturated:
  "\<forall>b\<in>set cs. snd (esm (replace_base_at_index rs idx b)) \<le> msf_length m \<Longrightarrow>
     try_changes esm rs idx misses cs (m, u) = (m, u)"
  by (induction cs) (auto split: prod.splits)

lemma try_changes_covers:
  "msf_length (fst st) \<le> msf_length (fst (try_changes esm rs idx misses cs st)) \<and>
   (\<forall>b\<in>set cs. snd (esm (replace_base_at_index rs idx b))
       \<le> msf_length (fst (try_changes esm rs idx misses cs st)))"
proof (induction cs arbitrary: st)
  case Nil
  then show ?case by simp
next
  case (Cons change cs)
  obtain m u where st: "st = (m, u)" by (cases st) auto
  obtain new_range new_length where
    new: "esm (replace_base_at_index rs idx change) = (new_range, new_length)"
    by (cases "esm (replace_base_at_index rs idx change)") auto
  show ?case
  proof (cases "new_length > msf_length m")
    case True
    with Cons.IH [of "((new_range, new_length, replace_base_at_index rs idx change, misses + 1), True)"]
      st new show ?thesis by auto
  next
    case False
    with Cons.IH [of "(m, u)"] st new show ?thesis by auto
  qed
qed

lemma seed_loop_saturated:
  assumes "\<forall>b\<in>set BASES.
      snd (esm (replace_base_at_index rs (int (length rs) - int length0 - 1) b)) \<le> msf_length m"
    and "seed_loop esm rs length0 mismatches m = Inr m'"
  shows "m' = m"
proof (cases "msf_misses m < mismatches \<and> msf_length m < length rs")
  case False
  have "seed_loop esm rs length0 mismatches m = Inr m"
    by (subst seed_loop.simps, rule if_not_P, rule False)
  with assms(2) show ?thesis by simp
next
  case True
  with assms(2) obtain c where
    c: "py_index (msf_read m) (int (length rs) - int (msf_length m) - 1) = Inr c"
    by (auto simp: seed_loop.simps [of esm rs length0 mismatches m] split: sum.splits)
  from assms(1) have "try_changes esm rs (int (length rs) - int length0 - 1) (msf_misses m)
      (filter (\<lambda>b. b \<noteq> c) BASES) (m, False) = (m, False)"
    by (intro try_changes_saturated) simp
  with True c assms(2) show ?thesis
    by (simp add: seed_loop.simps [of esm rs length0 mismatches m])
qed

lemma seed_loop_one_substitution:
  assumes e: "esm rs = (interval, length0)"
    and run: "seed_loop esm rs length0 mismatches (interval, length0, rs, 0) = Inr m"
  shows "msf_misses m \<le> 1"
proof (cases "0 < mismatches \<and> length0 < length rs")
  case False
  have "seed_loop esm rs length0 mismatches (interval, length0, rs, 0) =
      Inr (interval, length0, rs, 0)"
    by (subst seed_loop.simps, rule if_not_P) (use False in simp)
  with run show ?thesis by auto
next
  case True
  let ?idx = "int (length rs) - int length0 - 1"
  let ?m0 = "(interval, length0, rs, 0::int)"
  from True have idx: "0 \<le> ?idx" "?idx < int (length rs)" by simp_all
  then have ix: "py_index rs ?idx = Inr (rs ! nat ?idx)" by (simp add: py_index_def)
  define c where "c = rs ! nat ?idx"
  define res where "res = try_changes esm rs ?idx 0 (filter (\<lambda>b. b \<noteq> c) BASES) (?m0, False)"
  obtain m' u where res: "res = (m', u)" by (cases res) auto
  from try_changes_covers [of "(?m0, False)" esm rs ?idx 0 "filter (\<lambda>b. b \<noteq> c) BASES"] res
  have ge: "length0 \<le> msf_length m'"
    and cov: "\<forall>b\<in>set BASES. b \<noteq> c \<longrightarrow> snd (esm (replace_base_at_index rs ?idx b)) \<le> msf_length m'"
    by (auto simp: res_def [symmetric])
  from replace_base_same [OF idx] e ge
  have "snd (esm (replace_base_at_index rs ?idx c)) \<le> msf_length m'"
    by (simp add: c_def)
  with cov have sat: "\<forall>b\<in>set BASES. snd (esm (replace_base_at_index rs ?idx b)) \<le> msf_length m'"
    by metis
  from try_changes_misses [of esm rs ?idx 0 "filter (\<lambda>b. b \<noteq> c) BASES" "(?m0, False)"] res
  have alt: "(m' = ?m0 \<and> \<not> u) \<or> (u \<and> msf_misses m' = 1)"
    by (auto simp: res_def [symmetric])
  show ?thesis
  proof (cases u)
    case False
    with True ix res run have "m = m'"
      by (simp add: seed_loop.simps [of esm rs length0 mismatches ?m0] res_def [symmetric] c_def [symmetric])
    with alt False show ?thesis by auto
  next
    case u: True
    with True ix res run have "seed_loop esm rs length0 mismatches m' = Inr m"
      by (simp add: seed_loop.simps [of esm rs length0 mismatches ?m0] res_def [symmetric] c_def [symmetric])
    from seed_loop_saturated [OF sat this] alt u show ?thesis by simp
  qed
qed

lemma find_seeds_one_substitution:
  "find_seeds esm sa read_sequence mismatches k = Inr seeds \<Longrightarrow>
     \<forall>s\<in>set seeds. seed_mismatches s \<le> 1 \<and> length (seed_positions s) = 2"
proof (induction k arbitrary: read_sequence mismatches seeds)
  case 0
  then show ?case by simp
next
  case (Suc k)
  obtain interval length0 where e: "esm (rev read_sequence) = (interval, length0)"
    by (cases "esm (rev read_sequence)") auto
  from Suc.prems e obtain m where
    loop: "seed_loop esm (rev read_sequence) length0 mismatches
             (interval, length0, rev read_sequence, 0) = Inr m"
    by (auto split: sum.splits)
  from Suc.prems e loop obtain first where
    first: "py_index sa (int (fst (msf_range m))) = Inr first"
    by (cases "py_index sa (int (fst (msf_range m)))") auto
  from Suc.prems e loop first obtain second where
    second: "py_index sa (int (snd (msf_range m))) = Inr second"
    by (cases "py_index sa (int (snd (msf_range m)))") auto
  from seed_loop_one_substitution [OF e loop] have mm: "msf_misses m \<le> 1" .
  let ?s = "([first, second], msf_length m, msf_misses m,
             py_from (msf_read m) (int (length read_sequence) - int (msf_length m)))"
  show ?case
  proof (cases "length read_sequence = msf_length m")
    case True
    with Suc.prems e loop first second have "seeds = [?s]" by simp
    with mm show ?thesis by simp
  next
    case False
    let ?rem = "py_upto (msf_read m) (int (length (msf_read m)) - int (msf_length m))"
    from False Suc.prems e loop first second obtain rest where
      rest: "find_seeds esm sa ?rem (mismatches - msf_misses m) k = Inr rest"
      and seeds: "seeds = ?s # rest"
      by (auto split: sum.splits)
    from Suc.IH [OF rest] mm seeds show ?thesis by simp
  qed
qed

end
